theory Spec2Isabelle
  imports Complex_Main "HOL-Library.AList"
begin

section \<open>Data model of the tracker (tracker.py)\<close>

text \<open>
  A bounding box is the tuple \<open>(xmin, ymin, xmax, ymax)\<close>. The detector builds it with
  \<open>int(...)\<close>, so the coordinates are Python integers. Frame times come from
  \<open>time.time()\<close>; they are modelled as real numbers (exact arithmetic).
\<close>

type_synonym box = "int \<times> int \<times> int \<times> int"

text \<open>A detection is the dictionary \<open>{'bbox': ..., 'label': ...}\<close> built by the detector.\<close>

record detection =
  bbox :: box
  label :: string

text \<open>
  The per-object dictionary stored in \<open>tracked_objects\<close>. The keys \<open>'id'\<close>, \<open>'label'\<close> and
  \<open>'bbox'\<close> carry the prefix \<open>obj_\<close> here (\<open>id\<close> is a HOL constant, the other two are
  fields of a detection).
\<close>

record obj_info =
  obj_id :: int
  obj_label :: string
  obj_bbox :: box
  first_seen :: real
  last_seen :: real
  total_time :: real
  missing_frames :: int
  missing :: bool

text \<open>
  The attributes of \<open>ObjectTracker\<close>. \<open>tracked_objects\<close> is a Python dictionary: its
  iteration order is the insertion order of its keys, which matching depends on, so it is
  an association list; \<open>map_of\<close> is the lookup, \<open>AList.update\<close> the assignment
  \<open>d[k] = v\<close> (in place when the key exists, appended otherwise).
  \<open>first_frame_time\<close> is \<open>None\<close> until the first call of \<open>update\<close>.
\<close>

record tracker =
  tracked_objects :: "(int \<times> obj_info) list"
  next_object_id :: int
  iou_threshold :: real
  first_frame_time :: "real option"
  selected_objects :: "string list"
  missing_threshold :: int

text \<open>\<open>ObjectTracker.__init__\<close>; \<open>selected_objects or []\<close> is the list itself.\<close>

definition ObjectTracker_init :: "real \<Rightarrow> string list \<Rightarrow> int \<Rightarrow> tracker" where
  "ObjectTracker_init iou_thr sel miss_thr =
     \<lparr>tracked_objects = [], next_object_id = 1, iou_threshold = iou_thr,
      first_frame_time = None, selected_objects = sel, missing_threshold = miss_thr\<rparr>"

section \<open>Intersection over union\<close>

text \<open>
  \<open>ObjectTracker._iou\<close>. The areas are integers; \<open>/\<close> is Python's true division, taken
  only when \<open>union_area > 0\<close>.
\<close>

definition inter_area :: "box \<Rightarrow> box \<Rightarrow> int" where
  "inter_area box1 box2 =
     (case box1 of (x1, y1, x2, y2) \<Rightarrow> case box2 of (x1g, y1g, x2g, y2g) \<Rightarrow>
        (let xi1 = max x1 x1g; yi1 = max y1 y1g; xi2 = min x2 x2g; yi2 = min y2 y2g
         in max (xi2 - xi1) 0 * max (yi2 - yi1) 0))"

definition box_area :: "box \<Rightarrow> int" where
  "box_area b = (case b of (x1, y1, x2, y2) \<Rightarrow> (x2 - x1) * (y2 - y1))"

definition union_area :: "box \<Rightarrow> box \<Rightarrow> int" where
  "union_area box1 box2 = box_area box1 + box_area box2 - inter_area box1 box2"

definition iou :: "box \<Rightarrow> box \<Rightarrow> real" where
  "iou box1 box2 =
     (if union_area box1 box2 > 0
      then real_of_int (inter_area box1 box2) / real_of_int (union_area box1 box2)
      else 0)"

text \<open>Two boxes are disjoint when their projections on one of the axes do not overlap.\<close>

definition disjoint_boxes :: "box \<Rightarrow> box \<Rightarrow> bool" where
  "disjoint_boxes box1 box2 =
     (case box1 of (x1, y1, x2, y2) \<Rightarrow> case box2 of (x1g, y1g, x2g, y2g) \<Rightarrow>
        x2 \<le> x1g \<or> x2g \<le> x1 \<or> y2 \<le> y1g \<or> y2g \<le> y1)"

definition positive_box :: "box \<Rightarrow> bool" where
  "positive_box b = (case b of (x1, y1, x2, y2) \<Rightarrow> x1 < x2 \<and> y1 < y2)"

section \<open>Matching and update\<close>

text \<open>
  The test of \<open>_find_matching_object\<close> on one object: not missing, same label, IoU
  strictly above the threshold.
\<close>

definition is_match :: "tracker \<Rightarrow> box \<Rightarrow> string \<Rightarrow> obj_info \<Rightarrow> bool" where
  "is_match t b l ob =
     (\<not> missing ob \<and> obj_label ob = l \<and> iou b (obj_bbox ob) > iou_threshold t)"

text \<open>The \<open>for\<close> loop of \<open>_find_matching_object\<close> with its early \<open>return obj_id\<close>.\<close>

fun find_in_items :: "tracker \<Rightarrow> box \<Rightarrow> string \<Rightarrow> (int \<times> obj_info) list \<Rightarrow> int option" where
  "find_in_items t b l [] = None"
| "find_in_items t b l ((k, ob) # items) =
     (if is_match t b l ob then Some k else find_in_items t b l items)"

definition find_matching_object :: "tracker \<Rightarrow> box \<Rightarrow> string \<Rightarrow> int option" where
  "find_matching_object t b l = find_in_items t b l (tracked_objects t)"

text \<open>The dictionary literal stored for a new object.\<close>

definition new_object :: "int \<Rightarrow> detection \<Rightarrow> real \<Rightarrow> obj_info" where
  "new_object new_id d frame_time =
     \<lparr>obj_id = new_id, obj_label = label d, obj_bbox = bbox d, first_seen = frame_time,
      last_seen = frame_time, total_time = 0, missing_frames = 0, missing = False\<rparr>"

text \<open>The four assignments of the matched branch.\<close>

definition refresh_object :: "detection \<Rightarrow> real \<Rightarrow> obj_info \<Rightarrow> obj_info" where
  "refresh_object d frame_time ob =
     ob\<lparr>obj_bbox := bbox d, last_seen := frame_time,
        total_time := frame_time - first_seen ob, missing_frames := 0\<rparr>"

text \<open>
  The body of the first loop of \<open>update\<close> for one detection. Besides the new tracker and
  the new \<open>matched_ids\<close> it returns the id the detection resolved to (the value the
  source adds to \<open>matched_ids\<close>), \<open>None\<close> when the label is skipped.
  The lookup \<open>self.tracked_objects[matched_obj_id]\<close> cannot miss, because the id was just
  read from the same dictionary (lemma \<open>find_matching_object_lookup\<close> below); the model
  leaves the state unchanged in that unreachable branch.
\<close>

definition detection_step ::
  "real \<Rightarrow> tracker \<times> int set \<Rightarrow> detection \<Rightarrow> (tracker \<times> int set) \<times> int option" where
  "detection_step frame_time s d =
     (case s of (t, matched_ids) \<Rightarrow>
        if label d \<notin> set (selected_objects t) then ((t, matched_ids), None)
        else (case find_matching_object t (bbox d) (label d) of
            Some matched_obj_id \<Rightarrow>
              (case map_of (tracked_objects t) matched_obj_id of
                 Some ob \<Rightarrow>
                   ((t\<lparr>tracked_objects :=
                         AList.update matched_obj_id (refresh_object d frame_time ob)
                           (tracked_objects t)\<rparr>,
                     insert matched_obj_id matched_ids), Some matched_obj_id)
               | None \<Rightarrow> ((t, matched_ids), None))
          | None \<Rightarrow>
              (let new_id = next_object_id t in
                 ((t\<lparr>next_object_id := next_object_id t + 1,
                      tracked_objects :=
                        AList.update new_id (new_object new_id d frame_time)
                          (tracked_objects t)\<rparr>,
                   insert new_id matched_ids), Some new_id))))"

text \<open>The first loop of \<open>update\<close>: the state after all detections.\<close>

fun process_detections ::
  "real \<Rightarrow> detection list \<Rightarrow> tracker \<times> int set \<Rightarrow> tracker \<times> int set" where
  "process_detections frame_time [] s = s"
| "process_detections frame_time (d # ds) s =
     process_detections frame_time ds (fst (detection_step frame_time s d))"

text \<open>The ids the detections resolve to, in the order of the detections.\<close>

fun resolved_ids ::
  "real \<Rightarrow> detection list \<Rightarrow> tracker \<times> int set \<Rightarrow> int option list" where
  "resolved_ids frame_time [] s = []"
| "resolved_ids frame_time (d # ds) s =
     snd (detection_step frame_time s d) #
     resolved_ids frame_time ds (fst (detection_step frame_time s d))"

text \<open>The body of the second loop of \<open>update\<close> for one item of the dictionary.\<close>

definition mark_missing :: "int set \<Rightarrow> int \<Rightarrow> int \<Rightarrow> obj_info \<Rightarrow> obj_info" where
  "mark_missing matched_ids thr k ob =
     (if k \<notin> matched_ids \<and> \<not> missing ob then
        (let ob' = ob\<lparr>missing_frames := missing_frames ob + 1\<rparr>
         in if missing_frames ob' \<ge> thr then ob'\<lparr>missing := True\<rparr> else ob')
      else if k \<in> matched_ids \<and> missing_frames ob > 0 then ob\<lparr>missing_frames := 0\<rparr>
      else ob)"

definition set_first_frame_time :: "tracker \<Rightarrow> real \<Rightarrow> tracker" where
  "set_first_frame_time t frame_time =
     (if first_frame_time t = None then t\<lparr>first_frame_time := Some frame_time\<rparr> else t)"

text \<open>The tracker and \<open>matched_ids\<close> at the end of the first loop of \<open>update\<close>.\<close>

definition after_detections :: "tracker \<Rightarrow> detection list \<Rightarrow> real \<Rightarrow> tracker \<times> int set" where
  "after_detections t detections frame_time =
     process_detections frame_time detections (set_first_frame_time t frame_time, {})"

text \<open>\<open>ObjectTracker.update\<close>.\<close>

definition update :: "tracker \<Rightarrow> detection list \<Rightarrow> real \<Rightarrow> tracker" where
  "update t detections frame_time =
     (case after_detections t detections frame_time of
        (t', matched_ids) \<Rightarrow>
          t'\<lparr>tracked_objects :=
               map (\<lambda>(k, ob). (k, mark_missing matched_ids (missing_threshold t') k ob))
                 (tracked_objects t')\<rparr>)"

text \<open>A sequence of calls of \<open>update\<close>, each with its detections and frame time.\<close>

fun run_updates :: "tracker \<Rightarrow> (detection list \<times> real) list \<Rightarrow> tracker" where
  "run_updates t [] = t"
| "run_updates t ((detections, frame_time) # calls) =
     run_updates (update t detections frame_time) calls"

text \<open>
  The invariant of the tracker: ids are handed out from 1 upwards and the dictionary
  holds exactly the ids handed out so far, in that order.
\<close>

definition tracker_inv :: "tracker \<Rightarrow> bool" where
  "tracker_inv t =
     (1 \<le> next_object_id t \<and> map fst (tracked_objects t) = [1..next_object_id t - 1])"

text \<open>
  Every stored object carries its own key in \<open>'id'\<close>, and its label is one of the
  selected labels.
\<close>

definition objects_inv :: "tracker \<Rightarrow> bool" where
  "objects_inv t =
     (\<forall>p \<in> set (tracked_objects t).
        obj_id (snd p) = fst p \<and> obj_label (snd p) \<in> set (selected_objects t))"

text \<open>
  The object with id \<open>k\<close> goes unmatched in every call of a sequence: at the end of the
  first loop of each call, \<open>k\<close> is not in \<open>matched_ids\<close>.
\<close>

fun unmatched_run :: "tracker \<Rightarrow> (detection list \<times> real) list \<Rightarrow> int \<Rightarrow> bool" where
  "unmatched_run t [] k = True"
| "unmatched_run t ((detections, frame_time) # calls) k =
     (k \<notin> snd (after_detections t detections frame_time) \<and>
      unmatched_run (update t detections frame_time) calls k)"

section \<open>Summary\<close>

text \<open>Exceptions of the Python run time that the modelled code can raise.\<close>

datatype error = TypeError | UnboundLocalError

text \<open>
  One element of the lists of \<open>get_detailed_summary\<close>; its keys carry the prefix
  \<open>rep_\<close> here, since they repeat keys of the object dictionary.
\<close>

record summary_entry =
  rep_id :: int
  rep_first_seen :: real
  rep_last_seen :: real
  rep_total_time :: real
  rep_missing_frames :: int
  rep_missing :: bool

text \<open>The summary is a dictionary from labels to lists, in insertion order.\<close>

type_synonym summary = "(string \<times> summary_entry list) list"

text \<open>The dictionary literal appended for one object.\<close>

definition report_entry :: "real \<Rightarrow> obj_info \<Rightarrow> summary_entry" where
  "report_entry first_time ob =
     \<lparr>rep_id = obj_id ob,
      rep_first_seen = first_seen ob - first_time,
      rep_last_seen = last_seen ob - first_time,
      rep_total_time = total_time ob,
      rep_missing_frames = missing_frames ob,
      rep_missing = missing ob\<rparr>"

text \<open>
  \<open>if label not in summary: summary[label] = []\<close> followed by
  \<open>summary[label].append(e)\<close>.
\<close>

primrec summary_append :: "string \<Rightarrow> summary_entry \<Rightarrow> summary \<Rightarrow> summary" where
  "summary_append l e [] = [(l, [e])]"
| "summary_append l e (p # ps) =
     (if fst p = l then (l, snd p @ [e]) # ps else p # summary_append l e ps)"

text \<open>
  The loop of \<open>get_detailed_summary\<close>. Subtracting \<open>first_frame_time\<close> while it is still
  \<open>None\<close> raises \<open>TypeError\<close>.
\<close>

fun summary_loop :: "real option \<Rightarrow> (int \<times> obj_info) list \<Rightarrow> summary \<Rightarrow> error + summary" where
  "summary_loop first_time [] s = Inr s"
| "summary_loop first_time ((k, ob) # items) s =
     (case first_time of
        None \<Rightarrow> Inl TypeError
      | Some f \<Rightarrow> summary_loop first_time items (summary_append (obj_label ob) (report_entry f ob) s))"

definition get_detailed_summary :: "tracker \<Rightarrow> error + summary" where
  "get_detailed_summary t = summary_loop (first_frame_time t) (tracked_objects t) []"

text \<open>The list stored under a label, empty when the label is not a key.\<close>

definition entries_of :: "summary \<Rightarrow> string \<Rightarrow> summary_entry list" where
  "entries_of s l = (case map_of s l of None \<Rightarrow> [] | Some es \<Rightarrow> es)"

section \<open>The processing loop (main.py)\<close>

text \<open>
  The variables of \<open>main\<close> that one iteration of the \<open>while\<close> loop reads and writes.
  A queued item is the tuple \<open>(frame_count, timestamp, frame)\<close>; the queue is listed oldest
  first. The frame payload is a type parameter. \<open>frame_vars\<close> holds the local variables
  \<open>frame_count\<close>, \<open>timestamp\<close> and \<open>frame\<close>, which are only ever assigned together, by
  unpacking an item of the queue; it is \<open>None\<close> while they are unbound.
  The queue is shared with the capture thread: \<open>frame_queue\<close> is its content as the
  iteration finds it.
\<close>

record 'f loop_state =
  frame_queue :: "(int \<times> real \<times> 'f) list"
  frame_vars :: "(int \<times> real \<times> 'f) option"
  last_catchup_time :: real
  processed_frame_count :: int
  tracker :: tracker

text \<open>
  How an iteration ends: by \<open>time.sleep(0.01); continue\<close>, by running the body to the
  call of \<open>tracker.update\<close> and the rendering after it, or by an exception.
\<close>

datatype 'f outcome = Idle "'f loop_state" | Processed "'f loop_state" | Raised error

text \<open>
  \<open>while not frame_queue.empty(): frame_count, timestamp, frame = frame_queue.get();
  skipped_frames += 1\<close>. The result is the binding of the three locals and
  \<open>skipped_frames\<close>; the queue is empty afterwards.
\<close>

fun drain_queue ::
  "(int \<times> real \<times> 'f) list \<Rightarrow> (int \<times> real \<times> 'f) option \<Rightarrow> int \<Rightarrow> (int \<times> real \<times> 'f) option \<times> int"
where
  "drain_queue [] vars skipped_frames = (vars, skipped_frames)"
| "drain_queue (item # q) vars skipped_frames = drain_queue q (Some item) (skipped_frames + 1)"

text \<open>
  The part of the body after the \<open>if\<close>/\<open>else\<close>, from \<open>frame_time = timestamp - start_time\<close>
  on. Reading \<open>timestamp\<close> while it is unbound raises \<open>UnboundLocalError\<close>, before
  \<open>processed_frame_count\<close> is incremented. \<open>detect\<close> stands for
  \<open>perform_object_detection(model, _)\<close> and \<open>render\<close> for the drawing on the frame after the
  call of \<open>update\<close> (\<open>cv2.rectangle\<close> and \<open>cv2.putText\<close> change the frame in place); the
  telemetry and the test of the quit key that follow touch none of these variables.
\<close>

definition process_frame ::
  "('f \<Rightarrow> detection list) \<Rightarrow> (tracker \<Rightarrow> detection list \<Rightarrow> 'f \<Rightarrow> 'f) \<Rightarrow> real \<Rightarrow>
   'f loop_state \<Rightarrow> 'f outcome" where
  "process_frame detect render start_time s =
     (case frame_vars s of
        None \<Rightarrow> Raised UnboundLocalError
      | Some (frame_count, timestamp, frame) \<Rightarrow>
          (let frame_time = timestamp - start_time;
               detections = detect frame;
               tracker' = update (tracker s) detections frame_time
           in Processed
                (s\<lparr>processed_frame_count := processed_frame_count s + 1,
                   tracker := tracker',
                   frame_vars := Some (frame_count, timestamp, render tracker' detections frame)\<rparr>)))"

text \<open>One iteration of the \<open>while\<close> loop, with \<open>current_time\<close> the value of \<open>time.time()\<close>.\<close>

definition loop_iteration ::
  "('f \<Rightarrow> detection list) \<Rightarrow> (tracker \<Rightarrow> detection list \<Rightarrow> 'f \<Rightarrow> 'f) \<Rightarrow> real \<Rightarrow> real \<Rightarrow>
   real \<Rightarrow> 'f loop_state \<Rightarrow> 'f outcome" where
  "loop_iteration detect render start_time catchup_interval current_time s =
     (if current_time - last_catchup_time s \<ge> catchup_interval then
        (case drain_queue (frame_queue s) (frame_vars s) 0 of
           (vars, skipped_frames) \<Rightarrow>
             process_frame detect render start_time
               (s\<lparr>frame_queue := [], frame_vars := vars,
                  last_catchup_time :=
                    (if skipped_frames > 0 then current_time else last_catchup_time s)\<rparr>))
      else
        (case frame_queue s of
           [] \<Rightarrow> Idle s
         | item # q \<Rightarrow>
             process_frame detect render start_time (s\<lparr>frame_queue := q, frame_vars := Some item\<rparr>)))"

section \<open>Properties of IoU\<close>

lemma inter_area_commute: "inter_area a b = inter_area b a"
  by (cases a, cases b) (simp add: inter_area_def Let_def max.commute min.commute)

lemma inter_area_self: "positive_box a \<Longrightarrow> inter_area a a = box_area a"
  by (cases a) (simp add: inter_area_def box_area_def positive_box_def Let_def max_def)

lemma box_area_pos: "positive_box a \<Longrightarrow> 0 < box_area a"
  by (cases a) (simp add: box_area_def positive_box_def)

lemma inter_area_disjoint: "disjoint_boxes a b \<Longrightarrow> inter_area a b = 0"
  by (cases a, cases b) (auto simp: inter_area_def disjoint_boxes_def Let_def max_def min_def)

lemma inter_area_zero_left: "box_area a = 0 \<Longrightarrow> inter_area a b = 0"
  by (cases a, cases b) (auto simp: inter_area_def box_area_def Let_def max_def min_def)

lemma iou_commute: "iou a b = iou b a"
  by (simp add: iou_def union_area_def inter_area_commute add.commute)

lemma iou_inter_zero: "inter_area a b = 0 \<Longrightarrow> iou a b = 0"
  by (simp add: iou_def)

text \<open>
  Claim C7. IoU of a box of positive width and height with itself is 1; IoU of two
  disjoint boxes is 0; IoU is symmetric; IoU is 0 as soon as one of the two boxes has
  area zero.
\<close>

theorem iou_properties:
  "(positive_box a \<longrightarrow> iou a a = 1) \<and>
   (disjoint_boxes a b \<longrightarrow> iou a b = 0) \<and>
   iou a b = iou b a \<and>
   (box_area a = 0 \<or> box_area b = 0 \<longrightarrow> iou a b = 0)"
proof -
  have self: "iou a a = 1" if "positive_box a"
    using that box_area_pos [OF that]
    by (simp add: iou_def union_area_def inter_area_self)
  have disj: "iou a b = 0" if "disjoint_boxes a b"
    using that by (simp add: iou_inter_zero inter_area_disjoint)
  have zero: "iou a b = 0" if "box_area a = 0 \<or> box_area b = 0"
  proof -
    from that have "inter_area a b = 0"
      using inter_area_zero_left [of a b] inter_area_zero_left [of b a]
      by (auto simp: inter_area_commute [of a b])
    then show ?thesis by (rule iou_inter_zero)
  qed
  show ?thesis using self disj zero iou_commute by blast
qed

theorem iou_properties_witness:
  "positive_box (0, 0, 10, 10) \<and> iou (0, 0, 10, 10) (0, 0, 10, 10) = 1 \<and>
   disjoint_boxes (0, 0, 10, 10) (10, 0, 20, 10) \<and> iou (0, 0, 10, 10) (10, 0, 20, 10) = 0 \<and>
   box_area (3, 0, 3, 10) = 0 \<and> iou (3, 0, 3, 10) (0, 0, 10, 10) = 0 \<and>
   iou (0, 0, 10, 10) (5, 0, 15, 10) = iou (5, 0, 15, 10) (0, 0, 10, 10)"
proof -
  have p: "positive_box (0, 0, 10, 10)" by (simp add: positive_box_def)
  have d: "disjoint_boxes (0, 0, 10, 10) (10, 0, 20, 10)" by (simp add: disjoint_boxes_def)
  have z: "box_area (3, 0, 3, 10) = 0" by (simp add: box_area_def)
  show ?thesis
    using p d z
      iou_properties [of "(0, 0, 10, 10)" "(10, 0, 20, 10)"]
      iou_properties [of "(3, 0, 3, 10)" "(0, 0, 10, 10)"]
      iou_properties [of "(0, 0, 10, 10)" "(5, 0, 15, 10)"]
    by blast
qed

section \<open>Matching, one detection, one call\<close>

lemma find_in_items_mem:
  "find_in_items t b l items = Some k \<Longrightarrow> k \<in> fst ` set items"
  by (induction items) (auto split: if_splits)

lemma find_in_items_match:
  "distinct (map fst items) \<Longrightarrow> find_in_items t b l items = Some k \<Longrightarrow>
   \<exists>ob. map_of items k = Some ob \<and> is_match t b l ob"
proof (induction items)
  case Nil
  then show ?case by simp
next
  case (Cons p items)
  obtain k' ob' where p: "p = (k', ob')" by (cases p)
  show ?case
  proof (cases "is_match t b l ob'")
    case True
    with Cons.prems p show ?thesis by simp
  next
    case False
    with Cons.prems p have f: "find_in_items t b l items = Some k" by simp
    then have "k \<in> fst ` set items" by (rule find_in_items_mem)
    with Cons.prems p have "k \<noteq> k'" by auto
    with Cons.IH Cons.prems f p show ?thesis by simp
  qed
qed

lemma find_in_items_None:
  "find_in_items t b l items = None \<longleftrightarrow> (\<forall>p \<in> set items. \<not> is_match t b l (snd p))"
  by (induction items) (auto split: if_splits)

lemma find_in_items_first:
  "\<forall>p \<in> set pre. \<not> is_match t b l (snd p) \<Longrightarrow> is_match t b l ob \<Longrightarrow>
   find_in_items t b l (pre @ (k, ob) # post) = Some k"
  by (induction pre) auto

lemma find_matching_object_lookup:
  "find_matching_object t b l = Some k \<Longrightarrow> map_of (tracked_objects t) k \<noteq> None"
  unfolding find_matching_object_def
  by (drule find_in_items_mem) (simp add: map_of_eq_None_iff)

lemma detection_stepE:
  assumes "detection_step ft (t, m) d = ((t', m'), r)"
  obtains
    (skip) "label d \<notin> set (selected_objects t)" "t' = t" "m' = m" "r = None"
  | (hit) k ob where "label d \<in> set (selected_objects t)"
      "find_matching_object t (bbox d) (label d) = Some k"
      "map_of (tracked_objects t) k = Some ob"
      "t' = t\<lparr>tracked_objects := AList.update k (refresh_object d ft ob) (tracked_objects t)\<rparr>"
      "m' = insert k m" "r = Some k"
  | (new) "label d \<in> set (selected_objects t)"
      "find_matching_object t (bbox d) (label d) = None"
      "t' = t\<lparr>next_object_id := next_object_id t + 1,
              tracked_objects := AList.update (next_object_id t)
                (new_object (next_object_id t) d ft) (tracked_objects t)\<rparr>"
      "m' = insert (next_object_id t) m" "r = Some (next_object_id t)"
proof (cases "label d \<in> set (selected_objects t)")
  case False
  show ?thesis
    by (rule skip) (use assms False in \<open>simp_all add: detection_step_def\<close>)
next
  case sel: True
  show ?thesis
  proof (cases "find_matching_object t (bbox d) (label d)")
    case None
    show ?thesis
      by (rule new) (use assms sel None in \<open>auto simp: detection_step_def Let_def\<close>)
  next
    case (Some k)
    then obtain ob where ob: "map_of (tracked_objects t) k = Some ob"
      using find_matching_object_lookup by fastforce
    show ?thesis
      by (rule hit [of k ob]) (use assms sel Some ob in \<open>auto simp: detection_step_def\<close>)
  qed
qed


lemma tracker_inv_keys:
  "tracker_inv t \<Longrightarrow>
   distinct (map fst (tracked_objects t)) \<and>
   (\<forall>k \<in> fst ` set (tracked_objects t). 1 \<le> k \<and> k < next_object_id t)"
proof -
  assume inv: "tracker_inv t"
  then have keys: "map fst (tracked_objects t) = [1..next_object_id t - 1]"
    by (simp add: tracker_inv_def)
  have "fst ` set (tracked_objects t) = set (map fst (tracked_objects t))" by simp
  also have "\<dots> = {1..next_object_id t - 1}" by (simp only: keys set_upto)
  finally have s: "fst ` set (tracked_objects t) = {1..next_object_id t - 1}" .
  have d: "distinct (map fst (tracked_objects t))" by (simp only: keys distinct_upto)
  from s d show ?thesis by auto
qed

lemma next_id_fresh:
  "tracker_inv t \<Longrightarrow> next_object_id t \<notin> set (map fst (tracked_objects t))"
  using tracker_inv_keys [of t] by auto

lemma find_matching_object_active:
  assumes "tracker_inv t" and "find_matching_object t b l = Some k"
  shows "\<exists>ob. map_of (tracked_objects t) k = Some ob \<and> is_match t b l ob"
  using assms tracker_inv_keys [of t] find_in_items_match [of "tracked_objects t" t b l k]
  by (simp add: find_matching_object_def)

lemma step_config:
  assumes "detection_step ft (t, m) d = ((t', m'), r)"
  shows "iou_threshold t' = iou_threshold t \<and> selected_objects t' = selected_objects t \<and>
         missing_threshold t' = missing_threshold t \<and> first_frame_time t' = first_frame_time t"
  using assms by (cases rule: detection_stepE) simp_all

lemma step_matched:
  assumes "detection_step ft (t, m) d = ((t', m'), r)"
  shows "m' = m \<union> set_option r"
  using assms by (cases rule: detection_stepE) simp_all

lemma step_lookup_other:
  assumes "detection_step ft (t, m) d = ((t', m'), r)" and "r \<noteq> Some k"
  shows "map_of (tracked_objects t') k = map_of (tracked_objects t) k"
  using assms by (cases rule: detection_stepE) (simp_all add: update_conv')

lemma step_keys:
  assumes "detection_step ft (t, m) d = ((t', m'), r)" and "tracker_inv t"
  shows "map fst (tracked_objects t') =
           map fst (tracked_objects t) @
             (if next_object_id t' = next_object_id t then [] else [next_object_id t]) \<and>
         (next_object_id t' = next_object_id t \<or> next_object_id t' = next_object_id t + 1)"
  using assms
proof (cases rule: detection_stepE)
  case skip
  then show ?thesis by simp
next
  case (hit k ob)
  then have "k \<in> set (map fst (tracked_objects t))"
    by (metis map_of_eq_None_iff option.distinct(1) set_map)
  with hit show ?thesis by (simp add: update_keys)
next
  case new
  with next_id_fresh [OF assms(2)] show ?thesis by (simp add: update_keys)
qed

lemma step_inv:
  assumes "detection_step ft (t, m) d = ((t', m'), r)" and "tracker_inv t"
  shows "tracker_inv t'"
proof -
  from assms(2) have n: "1 \<le> next_object_id t"
    and keys: "map fst (tracked_objects t) = [1..next_object_id t - 1]"
    by (simp_all add: tracker_inv_def)
  have snoc: "[1..next_object_id t - 1] @ [next_object_id t] = [1..next_object_id t]"
    using n upto_rec2 [of 1 "next_object_id t"] by simp
  from step_keys [OF assms] keys n snoc show ?thesis
    by (auto simp: tracker_inv_def split: if_splits)
qed

lemma step_retired_not_resolved:
  assumes "detection_step ft (t, m) d = ((t', m'), r)" and "tracker_inv t"
    and "map_of (tracked_objects t) k = Some ob" and "missing ob"
  shows "r \<noteq> Some k"
  using assms(1)
proof (cases rule: detection_stepE)
  case skip
  then show ?thesis by simp
next
  case (hit k' ob')
  from find_matching_object_active [OF assms(2) hit(2)] assms(3,4) hit(6)
  show ?thesis by (auto simp: is_match_def)
next
  case new
  from assms(3) have "k \<in> set (map fst (tracked_objects t))"
    by (metis map_of_eq_None_iff option.distinct(1) set_map)
  with next_id_fresh [OF assms(2)] new(5) show ?thesis by auto
qed


lemma step_exhaust:
  obtains t' m' r where "detection_step ft (t, m) d = ((t', m'), r)"
  by (metis prod.exhaust)

lemma process_config:
  "process_detections ft ds (t, m) = (t', m') \<Longrightarrow>
   iou_threshold t' = iou_threshold t \<and> selected_objects t' = selected_objects t \<and>
   missing_threshold t' = missing_threshold t \<and> first_frame_time t' = first_frame_time t"
proof (induction ds arbitrary: t m)
  case Nil
  then show ?case by simp
next
  case (Cons d ds)
  obtain t1 m1 r where st: "detection_step ft (t, m) d = ((t1, m1), r)"
    by (rule step_exhaust)
  with Cons.prems have "process_detections ft ds (t1, m1) = (t', m')" by simp
  from Cons.IH [OF this] step_config [OF st] show ?case by simp
qed

lemma process_inv:
  "tracker_inv t \<Longrightarrow> process_detections ft ds (t, m) = (t', m') \<Longrightarrow> tracker_inv t'"
proof (induction ds arbitrary: t m)
  case Nil
  then show ?case by simp
next
  case (Cons d ds)
  obtain t1 m1 r where st: "detection_step ft (t, m) d = ((t1, m1), r)"
    by (rule step_exhaust)
  with Cons.prems have p: "process_detections ft ds (t1, m1) = (t', m')" by simp
  from step_inv [OF st Cons.prems(1)] p show ?case by (rule Cons.IH)
qed

lemma process_matched_mono:
  "process_detections ft ds (t, m) = (t', m') \<Longrightarrow> m \<subseteq> m'"
proof (induction ds arbitrary: t m)
  case Nil
  then show ?case by simp
next
  case (Cons d ds)
  obtain t1 m1 r where st: "detection_step ft (t, m) d = ((t1, m1), r)"
    by (rule step_exhaust)
  with Cons.prems have p: "process_detections ft ds (t1, m1) = (t', m')" by simp
  from Cons.IH [OF p] step_matched [OF st] show ?case by auto
qed

lemma process_lookup_unmatched:
  "process_detections ft ds (t, m) = (t', m') \<Longrightarrow> k \<notin> m' \<Longrightarrow>
   map_of (tracked_objects t') k = map_of (tracked_objects t) k"
proof (induction ds arbitrary: t m)
  case Nil
  then show ?case by simp
next
  case (Cons d ds)
  obtain t1 m1 r where st: "detection_step ft (t, m) d = ((t1, m1), r)"
    by (rule step_exhaust)
  with Cons.prems have p: "process_detections ft ds (t1, m1) = (t', m')" by simp
  from process_matched_mono [OF p] Cons.prems(2) have "k \<notin> m1" by auto
  with step_matched [OF st] have "r \<noteq> Some k" by auto
  from step_lookup_other [OF st this] Cons.IH [OF p Cons.prems(2)] show ?case by simp
qed

lemma process_retired:
  "tracker_inv t \<Longrightarrow> map_of (tracked_objects t) k = Some ob \<Longrightarrow> missing ob \<Longrightarrow> k \<notin> m \<Longrightarrow>
   process_detections ft ds (t, m) = (t', m') \<Longrightarrow>
   map_of (tracked_objects t') k = Some ob \<and> k \<notin> m'"
proof (induction ds arbitrary: t m)
  case Nil
  then show ?case by simp
next
  case (Cons d ds)
  obtain t1 m1 r where st: "detection_step ft (t, m) d = ((t1, m1), r)"
    by (rule step_exhaust)
  with Cons.prems have p: "process_detections ft ds (t1, m1) = (t', m')" by simp
  have r: "r \<noteq> Some k"
    using st Cons.prems(1,2,3) by (rule step_retired_not_resolved)
  have 1: "tracker_inv t1" using st Cons.prems(1) by (rule step_inv)
  have 2: "map_of (tracked_objects t1) k = Some ob"
    using step_lookup_other [OF st r] Cons.prems(2) by simp
  have 3: "k \<notin> m1" using step_matched [OF st] r Cons.prems(4) by auto
  from 1 2 Cons.prems(3) 3 p show ?case by (rule Cons.IH)
qed

lemma process_keys:
  "tracker_inv t \<Longrightarrow> process_detections ft ds (t, m) = (t', m') \<Longrightarrow>
   next_object_id t \<le> next_object_id t' \<and>
   map fst (tracked_objects t') =
     map fst (tracked_objects t) @ [next_object_id t..next_object_id t' - 1]"
proof (induction ds arbitrary: t m)
  case Nil
  then show ?case by simp
next
  case (Cons d ds)
  obtain t1 m1 r where st: "detection_step ft (t, m) d = ((t1, m1), r)"
    by (rule step_exhaust)
  with Cons.prems have p: "process_detections ft ds (t1, m1) = (t', m')" by simp
  have inv1: "tracker_inv t1" using st Cons.prems(1) by (rule step_inv)
  note ih = Cons.IH [OF inv1 p]
  note sk = step_keys [OF st Cons.prems(1)]
  show ?case
  proof (cases "next_object_id t1 = next_object_id t")
    case True
    with ih sk show ?thesis by simp
  next
    case False
    with sk have n1: "next_object_id t1 = next_object_id t + 1" by simp
    with ih have le: "next_object_id t + 1 \<le> next_object_id t'" by simp
    then have "[next_object_id t..next_object_id t' - 1] =
        next_object_id t # [next_object_id t + 1..next_object_id t' - 1]"
      by (simp add: upto_rec1)
    with ih sk n1 False show ?thesis by simp
  qed
qed

lemma map_of_map_items:
  "map_of (map (\<lambda>(k, ob). (k, f k ob)) items) k = map_option (f k) (map_of items k)"
  by (induction items) auto

lemma after_detections_props:
  assumes "after_detections t ds ft = (t', m')"
  shows "iou_threshold t' = iou_threshold t \<and> selected_objects t' = selected_objects t \<and>
         missing_threshold t' = missing_threshold t \<and>
         first_frame_time t' = Some (case first_frame_time t of None \<Rightarrow> ft | Some f \<Rightarrow> f)"
  using process_config [OF assms [unfolded after_detections_def]]
  by (auto simp: set_first_frame_time_def)

lemma set_first_frame_time_inv:
  "tracker_inv (set_first_frame_time t ft) = tracker_inv t"
  by (simp add: tracker_inv_def set_first_frame_time_def)

lemma set_first_frame_time_objects:
  "tracked_objects (set_first_frame_time t ft) = tracked_objects t \<and>
   next_object_id (set_first_frame_time t ft) = next_object_id t"
  by (simp add: set_first_frame_time_def)

lemma update_unfold:
  assumes "after_detections t ds ft = (t', m')"
  shows "update t ds ft =
     t'\<lparr>tracked_objects :=
          map (\<lambda>(k, ob). (k, mark_missing m' (missing_threshold t') k ob)) (tracked_objects t')\<rparr>"
  using assms by (simp add: update_def)

lemma update_keys_eq:
  assumes "after_detections t ds ft = (t', m')"
  shows "map fst (tracked_objects (update t ds ft)) = map fst (tracked_objects t') \<and>
         next_object_id (update t ds ft) = next_object_id t'"
  by (simp add: update_unfold [OF assms] case_prod_unfold comp_def)

lemma update_lookup:
  assumes "after_detections t ds ft = (t', m')"
  shows "map_of (tracked_objects (update t ds ft)) k =
         map_option (mark_missing m' (missing_threshold t) k) (map_of (tracked_objects t') k)"
  using after_detections_props [OF assms]
  by (simp add: update_unfold [OF assms] map_of_map_items)

lemma update_inv: "tracker_inv t \<Longrightarrow> tracker_inv (update t ds ft)"
proof -
  assume inv: "tracker_inv t"
  obtain t' m' where a: "after_detections t ds ft = (t', m')" by (metis prod.exhaust)
  from inv have "tracker_inv (set_first_frame_time t ft)"
    by (simp add: set_first_frame_time_inv)
  from process_inv [OF this a [unfolded after_detections_def]] have "tracker_inv t'" .
  with update_keys_eq [OF a] show ?thesis by (simp add: tracker_inv_def)
qed

lemma init_inv: "tracker_inv (ObjectTracker_init iou_thr sel thr)"
  by (simp add: tracker_inv_def ObjectTracker_init_def)

lemma run_updates_inv: "tracker_inv t \<Longrightarrow> tracker_inv (run_updates t calls)"
  by (induction t calls rule: run_updates.induct) (simp_all add: update_inv)

lemma run_updates_append:
  "run_updates t (cs @ cs') = run_updates (run_updates t cs) cs'"
  by (induction t cs rule: run_updates.induct) simp_all

section \<open>Invariants of the sequence of calls\<close>

lemma set_update_subset: "set (AList.update k v al) \<subseteq> insert (k, v) (set al)"
  by (induction al) auto

lemma lookup_mem: "map_of al k = Some v \<Longrightarrow> (k, v) \<in> set al"
  by (rule map_of_SomeD)

lemma step_objects_inv:
  assumes "detection_step ft (t, m) d = ((t', m'), r)" and "objects_inv t"
  shows "objects_inv t'"
  using assms(1)
proof (cases rule: detection_stepE)
  case skip
  with assms(2) show ?thesis by simp
next
  case (hit k ob)
  from hit(3) have mem: "(k, ob) \<in> set (tracked_objects t)" by (rule map_of_SomeD)
  with assms(2) have "obj_id ob = k" "obj_label ob \<in> set (selected_objects t)"
    by (auto simp: objects_inv_def)
  then have "obj_id (refresh_object d ft ob) = k"
    "obj_label (refresh_object d ft ob) \<in> set (selected_objects t)"
    by (simp_all add: refresh_object_def)
  with assms(2) hit(4) set_update_subset [of k "refresh_object d ft ob" "tracked_objects t"]
  show ?thesis by (auto simp: objects_inv_def)
next
  case new
  with assms(2)
    set_update_subset [of "next_object_id t" "new_object (next_object_id t) d ft" "tracked_objects t"]
  show ?thesis by (auto simp: objects_inv_def new_object_def)
qed

lemma process_objects_inv:
  "objects_inv t \<Longrightarrow> process_detections ft ds (t, m) = (t', m') \<Longrightarrow> objects_inv t'"
proof (induction ds arbitrary: t m)
  case Nil
  then show ?case by simp
next
  case (Cons d ds)
  obtain t1 m1 r where st: "detection_step ft (t, m) d = ((t1, m1), r)"
    by (rule step_exhaust)
  with Cons.prems have p: "process_detections ft ds (t1, m1) = (t', m')" by simp
  from step_objects_inv [OF st Cons.prems(1)] p show ?case by (rule Cons.IH)
qed

lemma mark_missing_fields:
  "obj_id (mark_missing m thr k ob) = obj_id ob \<and>
   obj_label (mark_missing m thr k ob) = obj_label ob \<and>
   obj_bbox (mark_missing m thr k ob) = obj_bbox ob \<and>
   first_seen (mark_missing m thr k ob) = first_seen ob \<and>
   last_seen (mark_missing m thr k ob) = last_seen ob \<and>
   total_time (mark_missing m thr k ob) = total_time ob"
  by (simp add: mark_missing_def Let_def)

lemma update_objects_inv: "objects_inv t \<Longrightarrow> objects_inv (update t ds ft)"
proof -
  assume inv: "objects_inv t"
  obtain t' m' where a: "after_detections t ds ft = (t', m')" by (metis prod.exhaust)
  from inv have "objects_inv (set_first_frame_time t ft)"
    by (simp add: objects_inv_def set_first_frame_time_def)
  from process_objects_inv [OF this a [unfolded after_detections_def]]
  have "objects_inv t'" .
  then show ?thesis
    by (auto simp: update_unfold [OF a] objects_inv_def mark_missing_fields)
qed

lemma init_objects_inv: "objects_inv (ObjectTracker_init iou_thr sel thr)"
  by (simp add: objects_inv_def ObjectTracker_init_def)

lemma run_updates_objects_inv: "objects_inv t \<Longrightarrow> objects_inv (run_updates t calls)"
  by (induction t calls rule: run_updates.induct) (simp_all add: update_objects_inv)

lemma update_keys_grow:
  assumes "tracker_inv t"
  shows "next_object_id t \<le> next_object_id (update t ds ft) \<and>
         map fst (tracked_objects (update t ds ft)) =
           map fst (tracked_objects t) @ [next_object_id t..next_object_id (update t ds ft) - 1]"
proof -
  obtain t' m' where a: "after_detections t ds ft = (t', m')" by (metis prod.exhaust)
  from assms have "tracker_inv (set_first_frame_time t ft)"
    by (simp add: set_first_frame_time_inv)
  from process_keys [OF this a [unfolded after_detections_def]] update_keys_eq [OF a]
  show ?thesis by (simp add: set_first_frame_time_objects)
qed

lemma upto_append_int:
  "(i::int) \<le> j \<Longrightarrow> j \<le> k \<Longrightarrow> [i..j - 1] @ [j..k - 1] = [i..k - 1]"
  using upto_split2 [of i "j - 1" "k - 1"]
  by (cases "i \<le> j - 1") (auto simp: upto.simps)

lemma run_updates_keys_grow:
  "tracker_inv t \<Longrightarrow>
   next_object_id t \<le> next_object_id (run_updates t calls) \<and>
   map fst (tracked_objects (run_updates t calls)) =
     map fst (tracked_objects t) @ [next_object_id t..next_object_id (run_updates t calls) - 1]"
proof (induction t calls rule: run_updates.induct)
  case (1 t)
  then show ?case by simp
next
  case (2 t ds ft calls)
  note g = update_keys_grow [OF "2.prems", of ds ft]
  note ih = "2.IH" [OF update_inv [OF "2.prems"]]
  from g ih have le: "next_object_id t \<le> next_object_id (run_updates (update t ds ft) calls)"
    by simp
  from g ih
    upto_append_int [of "next_object_id t" "next_object_id (update t ds ft)"
      "next_object_id (run_updates (update t ds ft) calls)"]
  show ?case by simp
qed

section \<open>Identifiers and ignored labels\<close>

lemmas tracker_eval = update_def after_detections_def set_first_frame_time_def detection_step_def
  find_matching_object_def is_match_def iou_def union_area_def inter_area_def box_area_def
  new_object_def refresh_object_def mark_missing_def ObjectTracker_init_def Let_def

lemma process_detections_append:
  "process_detections ft (ds @ ds') s = process_detections ft ds' (process_detections ft ds s)"
  by (induction ds arbitrary: s) simp_all

text \<open>
  Claim C6. After any sequence of calls on a fresh tracker the dictionary holds exactly
  the ids 1, 2, ..., \<open>next_object_id - 1\<close>, in this order of creation, and each object
  stores its key as its \<open>'id'\<close>; after any further calls the old ids are all still
  there, in place, and every id created since is at least the old \<open>next_object_id\<close>,
  so larger than every id handed out before, retired or not.
\<close>

theorem ids_increasing_from_one:
  "let t = run_updates (ObjectTracker_init iou_thr sel thr) calls;
       t' = run_updates t calls'
   in map fst (tracked_objects t) = [1..next_object_id t - 1] \<and>
      (\<forall>p \<in> set (tracked_objects t). obj_id (snd p) = fst p) \<and>
      next_object_id t \<le> next_object_id t' \<and>
      map fst (tracked_objects t') =
        map fst (tracked_objects t) @ [next_object_id t..next_object_id t' - 1]"
proof -
  define t where "t = run_updates (ObjectTracker_init iou_thr sel thr) calls"
  have inv: "tracker_inv t"
    unfolding t_def by (rule run_updates_inv) (rule init_inv)
  have oinv: "objects_inv t"
    unfolding t_def by (rule run_updates_objects_inv) (rule init_objects_inv)
  from inv have keys: "map fst (tracked_objects t) = [1..next_object_id t - 1]"
    by (simp add: tracker_inv_def)
  from oinv have ids: "\<forall>p \<in> set (tracked_objects t). obj_id (snd p) = fst p"
    by (simp add: objects_inv_def)
  from keys ids run_updates_keys_grow [OF inv, of calls'] show ?thesis
    by (simp add: t_def Let_def)
qed

theorem ids_increasing_from_one_witness:
  "map fst (tracked_objects (run_updates (ObjectTracker_init (1/2) [''car''] 1)
     [([\<lparr>bbox = (0, 0, 10, 10), label = ''car''\<rparr>], 0)])) = [1] \<and>
   map fst (tracked_objects (run_updates (run_updates (ObjectTracker_init (1/2) [''car''] 1)
     [([\<lparr>bbox = (0, 0, 10, 10), label = ''car''\<rparr>], 0)])
     [([], 1), ([\<lparr>bbox = (0, 0, 10, 10), label = ''car''\<rparr>], 2)])) = [1, 2]"
proof -
  have n1: "next_object_id (run_updates (ObjectTracker_init (1/2) [''car''] 1)
     [([\<lparr>bbox = (0, 0, 10, 10), label = ''car''\<rparr>], 0)]) = 2"
    by (simp add: tracker_eval)
  have n2: "next_object_id (run_updates (run_updates (ObjectTracker_init (1/2) [''car''] 1)
     [([\<lparr>bbox = (0, 0, 10, 10), label = ''car''\<rparr>], 0)])
     [([], 1), ([\<lparr>bbox = (0, 0, 10, 10), label = ''car''\<rparr>], 2)]) = 3"
    by (simp add: tracker_eval)
  have u1: "[1..(1::int)] = [1]" and u2: "[2..(2::int)] = [2]"
    by (simp_all add: upto.simps)
  from ids_increasing_from_one [of "1/2" "[''car'']" 1
      "[([\<lparr>bbox = (0, 0, 10, 10), label = ''car''\<rparr>], 0)]"
      "[([], 1), ([\<lparr>bbox = (0, 0, 10, 10), label = ''car''\<rparr>], 2)]"]
  show ?thesis
    unfolding Let_def n1 n2 by (simp add: u1 u2)
qed

text \<open>
  Claim C8. A detection whose label is not among \<open>selected_objects\<close> leaves the tracker
  and \<open>matched_ids\<close> as they are, and a call of \<open>update\<close> gives the same tracker
  with and without that detection in its list.
\<close>

theorem unselected_label_ignored:
  assumes "label d \<notin> set (selected_objects t)"
  shows "detection_step ft (t, m) d = ((t, m), None) \<and>
         update t (ds @ d # ds') ft = update t (ds @ ds') ft"
proof -
  have step: "detection_step ft' (t', m') d = ((t', m'), None)"
    if "selected_objects t' = selected_objects t" for ft' t' m'
    using that assms by (simp add: detection_step_def)
  obtain t1 m1 where p: "process_detections ft ds (set_first_frame_time t ft, {}) = (t1, m1)"
    by (metis prod.exhaust)
  from process_config [OF p] have "selected_objects t1 = selected_objects t"
    by (simp add: set_first_frame_time_def)
  from step [OF this] have "detection_step ft (t1, m1) d = ((t1, m1), None)" .
  with p have "after_detections t (ds @ d # ds') ft = after_detections t (ds @ ds') ft"
    by (simp add: after_detections_def process_detections_append)
  with step [of t ft m] show ?thesis by (simp add: update_def)
qed

theorem unselected_label_ignored_witness:
  "label \<lparr>bbox = (0, 0, 10, 10), label = ''dog''\<rparr> \<notin>
     set (selected_objects (ObjectTracker_init (1/2) [''car''] 20)) \<and>
   update (ObjectTracker_init (1/2) [''car''] 20)
     ([\<lparr>bbox = (0, 0, 10, 10), label = ''car''\<rparr>] @
       \<lparr>bbox = (0, 0, 10, 10), label = ''dog''\<rparr> # []) 0 =
   update (ObjectTracker_init (1/2) [''car''] 20)
     ([\<lparr>bbox = (0, 0, 10, 10), label = ''car''\<rparr>] @ []) 0"
proof -
  have h: "label \<lparr>bbox = (0, 0, 10, 10), label = ''dog''\<rparr> \<notin>
     set (selected_objects (ObjectTracker_init (1/2) [''car''] 20))"
    by (simp add: ObjectTracker_init_def)
  from h unselected_label_ignored [OF h] show ?thesis by blast
qed

section \<open>Retirement\<close>

lemma update_retired:
  assumes "tracker_inv t" and "map_of (tracked_objects t) k = Some ob" and "missing ob"
  shows "map_of (tracked_objects (update t ds ft)) k = Some ob"
proof -
  obtain t' m' where a: "after_detections t ds ft = (t', m')" by (metis prod.exhaust)
  have inv: "tracker_inv (set_first_frame_time t ft)"
    using assms(1) by (simp add: set_first_frame_time_inv)
  have look: "map_of (tracked_objects (set_first_frame_time t ft)) k = Some ob"
    using assms(2) by (simp add: set_first_frame_time_objects)
  have "k \<notin> ({}::int set)" by simp
  from process_retired [OF inv look assms(3) this a [unfolded after_detections_def]]
  have "map_of (tracked_objects t') k = Some ob" and "k \<notin> m'" by simp_all
  with assms(3) show ?thesis
    by (simp add: update_lookup [OF a] mark_missing_def)
qed

lemma run_updates_retired:
  "tracker_inv t \<Longrightarrow> map_of (tracked_objects t) k = Some ob \<Longrightarrow> missing ob \<Longrightarrow>
   map_of (tracked_objects (run_updates t calls)) k = Some ob"
proof (induction t calls rule: run_updates.induct)
  case (1 t)
  then show ?case by simp
next
  case (2 t ds ft calls)
  have "tracker_inv (update t ds ft)" using "2.prems"(1) by (rule update_inv)
  moreover have "map_of (tracked_objects (update t ds ft)) k = Some ob"
    using "2.prems" by (rule update_retired)
  ultimately show ?case using "2.prems"(3) "2.IH" by simp
qed

text \<open>
  Claim C10. An object that is retired (\<open>'missing'\<close> is true) in a state reached from a
  fresh tracker is stored unchanged, field for field, after any further calls of
  \<open>update\<close>, whatever their detections.
\<close>

theorem retired_object_frozen:
  assumes "map_of (tracked_objects (run_updates (ObjectTracker_init iou_thr sel thr) calls)) k
             = Some ob"
    and "missing ob"
  shows "map_of (tracked_objects
           (run_updates (run_updates (ObjectTracker_init iou_thr sel thr) calls) calls')) k
         = Some ob"
proof -
  have "tracker_inv (run_updates (ObjectTracker_init iou_thr sel thr) calls)"
    by (rule run_updates_inv) (rule init_inv)
  from this assms show ?thesis by (rule run_updates_retired)
qed

theorem retired_object_frozen_witness:
  "map_of (tracked_objects (run_updates (ObjectTracker_init (1/2) [''car''] 1)
     [([\<lparr>bbox = (0, 0, 10, 10), label = ''car''\<rparr>], 0), ([], 1)])) 1 =
     Some \<lparr>obj_id = 1, obj_label = ''car'', obj_bbox = (0, 0, 10, 10), first_seen = 0,
           last_seen = 0, total_time = 0, missing_frames = 1, missing = True\<rparr> \<and>
   map_of (tracked_objects (run_updates (run_updates (ObjectTracker_init (1/2) [''car''] 1)
     [([\<lparr>bbox = (0, 0, 10, 10), label = ''car''\<rparr>], 0), ([], 1)])
     [([\<lparr>bbox = (0, 0, 10, 10), label = ''car''\<rparr>], 2), ([], 3)])) 1 =
     Some \<lparr>obj_id = 1, obj_label = ''car'', obj_bbox = (0, 0, 10, 10), first_seen = 0,
           last_seen = 0, total_time = 0, missing_frames = 1, missing = True\<rparr>"
proof -
  have h: "map_of (tracked_objects (run_updates (ObjectTracker_init (1/2) [''car''] 1)
     [([\<lparr>bbox = (0, 0, 10, 10), label = ''car''\<rparr>], 0), ([], 1)])) 1 =
     Some \<lparr>obj_id = 1, obj_label = ''car'', obj_bbox = (0, 0, 10, 10), first_seen = 0,
           last_seen = 0, total_time = 0, missing_frames = 1, missing = True\<rparr>"
    by (simp add: tracker_eval)
  have m: "missing \<lparr>obj_id = 1, obj_label = ''car'', obj_bbox = (0, 0, 10, 10),
           first_seen = 0, last_seen = 0, total_time = 0, missing_frames = 1, missing = True\<rparr>"
    by simp
  from h retired_object_frozen [OF h m] show ?thesis by blast
qed

section \<open>First match\<close>

text \<open>
  Claim C4. When the dictionary holds two objects that both pass the test of the matcher
  for a detection (active, same label, IoU above the threshold), and no object before the
  first of them passes it, the matcher returns the id of the first, whatever the two values
  of IoU are: also when the second object has the strictly larger one, as in the example
  that follows the theorem (7/13 for id 1, 2/3 for id 2).
\<close>

theorem first_match_wins:
  assumes "tracked_objects t = pre @ (k1, ob1) # mid @ (k2, ob2) # post"
    and "\<forall>p \<in> set pre. \<not> is_match t b l (snd p)"
    and "is_match t b l ob1" and "is_match t b l ob2"
  shows "find_matching_object t b l = Some k1"
  using assms(1) find_in_items_first [OF assms(2,3), of k1 "mid @ (k2, ob2) # post"]
  by (simp add: find_matching_object_def)

theorem first_match_wins_witness:
  "tracked_objects (run_updates (ObjectTracker_init (1/2) [''car''] 20)
     [([\<lparr>bbox = (0, 0, 10, 1), label = ''car''\<rparr>,
        \<lparr>bbox = (5, 0, 15, 1), label = ''car''\<rparr>], 0)]) =
     [] @ (1, \<lparr>obj_id = 1, obj_label = ''car'', obj_bbox = (0, 0, 10, 1), first_seen = 0,
           last_seen = 0, total_time = 0, missing_frames = 0, missing = False\<rparr>) #
     [] @ (2, \<lparr>obj_id = 2, obj_label = ''car'', obj_bbox = (5, 0, 15, 1), first_seen = 0,
           last_seen = 0, total_time = 0, missing_frames = 0, missing = False\<rparr>) # [] \<and>
   iou (3, 0, 13, 1) (0, 0, 10, 1) = 7 / 13 \<and> iou (3, 0, 13, 1) (5, 0, 15, 1) = 2 / 3 \<and>
   find_matching_object (run_updates (ObjectTracker_init (1/2) [''car''] 20)
     [([\<lparr>bbox = (0, 0, 10, 1), label = ''car''\<rparr>,
        \<lparr>bbox = (5, 0, 15, 1), label = ''car''\<rparr>], 0)]) (3, 0, 13, 1) ''car'' = Some 1"
proof -
  let ?t = "run_updates (ObjectTracker_init (1/2) [''car''] 20)
     [([\<lparr>bbox = (0, 0, 10, 1), label = ''car''\<rparr>,
        \<lparr>bbox = (5, 0, 15, 1), label = ''car''\<rparr>], 0)]"
  let ?o1 = "\<lparr>obj_id = 1, obj_label = ''car'', obj_bbox = (0, 0, 10, 1), first_seen = 0,
           last_seen = 0, total_time = 0, missing_frames = 0, missing = False\<rparr>"
  let ?o2 = "\<lparr>obj_id = 2, obj_label = ''car'', obj_bbox = (5, 0, 15, 1), first_seen = 0,
           last_seen = 0, total_time = 0, missing_frames = 0, missing = False\<rparr>"
  have objs: "tracked_objects ?t = [] @ (1, ?o1) # [] @ (2, ?o2) # []"
    by (simp add: tracker_eval)
  have thr: "iou_threshold ?t = 1 / 2"
    by (simp add: tracker_eval)
  have i1: "iou (3, 0, 13, 1) (0, 0, 10, 1) = 7 / 13"
    by (simp add: iou_def union_area_def inter_area_def box_area_def)
  have i2: "iou (3, 0, 13, 1) (5, 0, 15, 1) = 2 / 3"
    by (simp add: iou_def union_area_def inter_area_def box_area_def)
  have pre: "\<forall>p \<in> set []. \<not> is_match ?t (3, 0, 13, 1) ''car'' (snd p)" by simp
  have m1: "is_match ?t (3, 0, 13, 1) ''car'' ?o1"
    using thr by (simp add: is_match_def i1)
  have m2: "is_match ?t (3, 0, 13, 1) ''car'' ?o2"
    using thr by (simp add: is_match_def i2)
  from objs i1 i2 first_match_wins [OF objs pre m1 m2] show ?thesis by blast
qed

section \<open>Counting missing frames\<close>

lemma step_resolved_fresh:
  assumes "detection_step ft (t, m) d = ((t', m'), Some k)" and "tracker_inv t"
  shows "\<exists>ob. map_of (tracked_objects t') k = Some ob \<and> missing_frames ob = 0 \<and> \<not> missing ob"
  using assms(1)
proof (cases rule: detection_stepE)
  case skip
  then show ?thesis by simp
next
  case (hit k' ob)
  from find_matching_object_active [OF assms(2) hit(2)] hit(3)
  have "\<not> missing ob" by (auto simp: is_match_def)
  with hit show ?thesis by (simp add: update_conv' refresh_object_def)
next
  case new
  then show ?thesis by (simp add: update_conv' new_object_def)
qed

lemma process_matched_fresh:
  "tracker_inv t \<Longrightarrow> process_detections ft ds (t, m) = (t', m') \<Longrightarrow> k \<in> m' \<Longrightarrow>
   (k \<in> m \<longrightarrow> (\<exists>ob. map_of (tracked_objects t) k = Some ob \<and> missing_frames ob = 0 \<and>
      \<not> missing ob)) \<Longrightarrow>
   \<exists>ob. map_of (tracked_objects t') k = Some ob \<and> missing_frames ob = 0 \<and> \<not> missing ob"
proof (induction ds arbitrary: t m)
  case Nil
  then show ?case by simp
next
  case (Cons d ds)
  obtain t1 m1 r where st: "detection_step ft (t, m) d = ((t1, m1), r)"
    by (rule step_exhaust)
  with Cons.prems have p: "process_detections ft ds (t1, m1) = (t', m')" by simp
  have inv1: "tracker_inv t1" using st Cons.prems(1) by (rule step_inv)
  have "k \<in> m1 \<longrightarrow> (\<exists>ob. map_of (tracked_objects t1) k = Some ob \<and> missing_frames ob = 0 \<and>
      \<not> missing ob)"
  proof (cases "r = Some k")
    case True
    with st Cons.prems(1) show ?thesis by (simp add: step_resolved_fresh)
  next
    case False
    with step_matched [OF st] step_lookup_other [OF st False] Cons.prems(4)
    show ?thesis by auto
  qed
  with inv1 p Cons.prems(3) show ?case by (rule Cons.IH)
qed

lemma update_matched:
  assumes "tracker_inv t" and "k \<in> snd (after_detections t ds ft)"
  shows "\<exists>ob. map_of (tracked_objects (update t ds ft)) k = Some ob \<and>
              missing_frames ob = 0 \<and> \<not> missing ob"
proof -
  obtain t' m' where a: "after_detections t ds ft = (t', m')" by (metis prod.exhaust)
  with assms(2) have k: "k \<in> m'" by simp
  have inv: "tracker_inv (set_first_frame_time t ft)"
    using assms(1) by (simp add: set_first_frame_time_inv)
  from process_matched_fresh [OF inv a [unfolded after_detections_def] k]
  obtain ob where "map_of (tracked_objects t') k = Some ob" "missing_frames ob = 0"
    "\<not> missing ob" by auto
  with k show ?thesis by (simp add: update_lookup [OF a] mark_missing_def)
qed

lemma update_unmatched:
  assumes "map_of (tracked_objects t) k = Some ob" and "\<not> missing ob"
    and "k \<notin> snd (after_detections t ds ft)"
  shows "\<exists>ob'. map_of (tracked_objects (update t ds ft)) k = Some ob' \<and>
               missing_frames ob' = missing_frames ob + 1 \<and>
               (missing ob' \<longleftrightarrow> missing_threshold t \<le> missing_frames ob + 1)"
proof -
  obtain t' m' where a: "after_detections t ds ft = (t', m')" by (metis prod.exhaust)
  with assms(3) have k: "k \<notin> m'" by simp
  from process_lookup_unmatched [OF a [unfolded after_detections_def] k] assms(1)
  have "map_of (tracked_objects t') k = Some ob"
    by (simp add: set_first_frame_time_objects)
  with k assms(2) show ?thesis
    by (simp add: update_lookup [OF a] mark_missing_def Let_def)
qed

lemma update_missing_threshold: "missing_threshold (update t ds ft) = missing_threshold t"
proof -
  obtain t' m' where a: "after_detections t ds ft = (t', m')" by (metis prod.exhaust)
  from after_detections_props [OF a] show ?thesis by (simp add: update_unfold [OF a])
qed

lemma run_updates_missing_threshold:
  "missing_threshold (run_updates t calls) = missing_threshold t"
  by (induction t calls rule: run_updates.induct) (simp_all add: update_missing_threshold)

lemma unmatched_run_append:
  "unmatched_run t (cs @ cs') k \<longleftrightarrow>
   unmatched_run t cs k \<and> unmatched_run (run_updates t cs) cs' k"
  by (induction t cs k rule: unmatched_run.induct) auto

lemma unmatched_run_count:
  "map_of (tracked_objects t) k = Some ob \<Longrightarrow> \<not> missing ob \<Longrightarrow> unmatched_run t calls k \<Longrightarrow>
   missing_frames ob + int (length calls) < missing_threshold t \<Longrightarrow>
   \<exists>ob'. map_of (tracked_objects (run_updates t calls)) k = Some ob' \<and> \<not> missing ob' \<and>
         missing_frames ob' = missing_frames ob + int (length calls)"
proof (induction calls arbitrary: t ob)
  case Nil
  then show ?case by simp
next
  case (Cons c calls)
  obtain ds ft where c: "c = (ds, ft)" by (cases c)
  from Cons.prems(3) c have un: "k \<notin> snd (after_detections t ds ft)"
    and rest: "unmatched_run (update t ds ft) calls k" by simp_all
  from update_unmatched [OF Cons.prems(1,2) un] Cons.prems(4)
  obtain ob1 where 1: "map_of (tracked_objects (update t ds ft)) k = Some ob1"
    and 2: "missing_frames ob1 = missing_frames ob + 1" and 3: "\<not> missing ob1"
    by auto
  from Cons.prems(4) 2
  have 4: "missing_frames ob1 + int (length calls) < missing_threshold (update t ds ft)"
    by (simp add: update_missing_threshold)
  from Cons.IH [OF 1 3 rest 4] 2 c show ?case by (auto simp: add.assoc)
qed

lemma unmatched_run_retire:
  assumes "map_of (tracked_objects t) k = Some ob" and "\<not> missing ob"
    and "unmatched_run t calls k" and "calls \<noteq> []"
    and "missing_frames ob + int (length calls) = missing_threshold t"
  shows "\<exists>ob'. map_of (tracked_objects (run_updates t calls)) k = Some ob' \<and> missing ob' \<and>
         missing_frames ob' = missing_threshold t"
proof -
  from assms(4) obtain cs c where calls: "calls = cs @ [c]" by (cases calls rule: rev_cases) auto
  obtain ds ft where c: "c = (ds, ft)" by (cases c)
  from assms(3) calls c have un: "unmatched_run t cs k"
    and last: "k \<notin> snd (after_detections (run_updates t cs) ds ft)"
    by (simp_all add: unmatched_run_append)
  from assms(5) calls
  have lt: "missing_frames ob + int (length cs) < missing_threshold t" by simp
  from unmatched_run_count [OF assms(1,2) un lt]
  obtain ob1 where 1: "map_of (tracked_objects (run_updates t cs)) k = Some ob1"
    and 2: "\<not> missing ob1" and 3: "missing_frames ob1 = missing_frames ob + int (length cs)"
    by auto
  from update_unmatched [OF 1 2 last] 3 assms(5) calls c show ?thesis
    by (auto simp: run_updates_append run_updates_missing_threshold)
qed

text \<open>
  Claim C3. Take a state reached from a fresh tracker with \<open>missing_threshold\<close> at least 1,
  and an object that a call of \<open>update\<close> matches or creates. If the object then goes
  unmatched in the next \<open>n\<close> calls, it is still active with \<open>missing_frames = n\<close> as long as
  \<open>n\<close> is below the threshold (so after threshold - 1 calls), and it is retired, with
  \<open>missing_frames\<close> equal to the threshold, when \<open>n\<close> is the threshold.
\<close>

theorem retired_exactly_at_threshold:
  assumes "t0 = run_updates (ObjectTracker_init iou_thr sel thr) calls0"
    and "t1 = update t0 ds0 ft0"
    and "1 \<le> thr"
    and "k \<in> snd (after_detections t0 ds0 ft0)"
    and "unmatched_run t1 calls k"
  shows "(int (length calls) < thr \<longrightarrow>
           (\<exists>ob. map_of (tracked_objects (run_updates t1 calls)) k = Some ob \<and>
                 \<not> missing ob \<and> missing_frames ob = int (length calls))) \<and>
         (int (length calls) = thr \<longrightarrow>
           (\<exists>ob. map_of (tracked_objects (run_updates t1 calls)) k = Some ob \<and>
                 missing ob \<and> missing_frames ob = thr))"
proof -
  have inv: "tracker_inv t0"
    unfolding assms(1) by (rule run_updates_inv) (rule init_inv)
  have thr0: "missing_threshold t0 = thr"
    unfolding assms(1) by (simp add: run_updates_missing_threshold ObjectTracker_init_def)
  then have thr1: "missing_threshold t1 = thr"
    unfolding assms(2) by (simp add: update_missing_threshold)
  from update_matched [OF inv assms(4)]
  obtain ob where ob: "map_of (tracked_objects t1) k = Some ob" "\<not> missing ob"
    and mf: "missing_frames ob = 0"
    unfolding assms(2) by auto
  have below: "\<exists>ob'. map_of (tracked_objects (run_updates t1 calls)) k = Some ob' \<and>
      \<not> missing ob' \<and> missing_frames ob' = int (length calls)"
    if "int (length calls) < thr"
    using unmatched_run_count [OF ob assms(5)] that mf thr1 by simp
  have at: "\<exists>ob'. map_of (tracked_objects (run_updates t1 calls)) k = Some ob' \<and>
      missing ob' \<and> missing_frames ob' = thr"
    if "int (length calls) = thr"
  proof -
    from that assms(3) have "calls \<noteq> []" by auto
    from unmatched_run_retire [OF ob assms(5) this] that mf thr1 show ?thesis by simp
  qed
  from below at show ?thesis by blast
qed


theorem retired_exactly_at_threshold_witness:
  "(1::int) \<le> 2 \<and>
   1 \<in> snd (after_detections (run_updates (ObjectTracker_init (1/2) [''car''] 2) [])
     [\<lparr>bbox = (0, 0, 10, 10), label = ''car''\<rparr>] 0) \<and>
   unmatched_run (update (run_updates (ObjectTracker_init (1/2) [''car''] 2) [])
     [\<lparr>bbox = (0, 0, 10, 10), label = ''car''\<rparr>] 0) [([], 1), ([], 2)] 1 \<and>
   (\<exists>ob. map_of (tracked_objects (run_updates
       (update (run_updates (ObjectTracker_init (1/2) [''car''] 2) [])
         [\<lparr>bbox = (0, 0, 10, 10), label = ''car''\<rparr>] 0) [([], 1)])) 1 = Some ob \<and>
      \<not> missing ob \<and> missing_frames ob = 1) \<and>
   (\<exists>ob. map_of (tracked_objects (run_updates
       (update (run_updates (ObjectTracker_init (1/2) [''car''] 2) [])
         [\<lparr>bbox = (0, 0, 10, 10), label = ''car''\<rparr>] 0) [([], 1), ([], 2)])) 1 = Some ob \<and>
      missing ob \<and> missing_frames ob = 2)"
proof -
  let ?base = "run_updates (ObjectTracker_init (1/2) [''car''] 2) []"
  let ?d = "\<lparr>bbox = (0, 0, 10, 10), label = ''car''\<rparr>"
  let ?after = "update ?base [?d] 0"
  have h3: "(1::int) \<le> 2" by simp
  have h4: "1 \<in> snd (after_detections ?base [?d] 0)"
    by (simp add: tracker_eval)
  have h5: "unmatched_run ?after [([], 1), ([], 2)] 1"
    by (simp add: tracker_eval)
  have h5': "unmatched_run ?after [([], 1)] 1"
    by (simp add: tracker_eval)
  note a = retired_exactly_at_threshold
    [of ?base "1/2" "[''car'']" 2 "[]" ?after "[?d]" 0 1 "[([], 1)]", OF refl refl h3 h4 h5']
  note b = retired_exactly_at_threshold
    [of ?base "1/2" "[''car'']" 2 "[]" ?after "[?d]" 0 1 "[([], 1), ([], 2)]", OF refl refl h3 h4 h5]
  have la: "int (length [([]::detection list, 1::real)]) < 2"
    and la': "int (length [([]::detection list, 1::real)]) = 1" by simp_all
  have lb: "int (length [([]::detection list, 1::real), ([], 2)]) = 2" by simp
  from a la have ca: "\<exists>ob. map_of (tracked_objects (run_updates ?after [([], 1)])) 1 = Some ob \<and>
      \<not> missing ob \<and> missing_frames ob = 1"
    unfolding la' by blast
  from b lb have cb: "\<exists>ob. map_of (tracked_objects (run_updates ?after [([], 1), ([], 2)])) 1 = Some ob \<and>
      missing ob \<and> missing_frames ob = 2"
    by blast
  from h3 h4 h5 ca cb show ?thesis by blast
qed

section \<open>Retired objects and the matcher\<close>

lemma loop_state_inv:
  assumes "t0 = run_updates (ObjectTracker_init iou_thr sel thr) calls"
    and "process_detections ft ds (set_first_frame_time t0 ft, {}) = (t, m)"
  shows "tracker_inv t \<and> objects_inv t"
proof -
  have "tracker_inv t0"
    unfolding assms(1) by (rule run_updates_inv) (rule init_inv)
  then have 1: "tracker_inv (set_first_frame_time t0 ft)"
    by (simp add: set_first_frame_time_inv)
  have "objects_inv t0"
    unfolding assms(1) by (rule run_updates_objects_inv) (rule init_objects_inv)
  then have 2: "objects_inv (set_first_frame_time t0 ft)"
    by (simp add: objects_inv_def set_first_frame_time_def)
  from process_inv [OF 1 assms(2)] process_objects_inv [OF 2 assms(2)] show ?thesis ..
qed

lemma lookup_key: "map_of al k = Some v \<Longrightarrow> k \<in> fst ` set al"
  by (metis map_of_eq_None_iff option.distinct(1))

lemma find_in_items_split:
  "find_in_items t b l items = Some k \<Longrightarrow>
   \<exists>pre ob post. items = pre @ (k, ob) # post \<and>
     (\<forall>p \<in> set pre. \<not> is_match t b l (snd p)) \<and> is_match t b l ob"
proof (induction items)
  case Nil
  then show ?case by simp
next
  case (Cons p items)
  obtain k0 ob0 where p: "p = (k0, ob0)" by (cases p)
  show ?case
  proof (cases "is_match t b l ob0")
    case True
    with Cons.prems p have "p # items = [] @ (k, ob0) # items" by simp
    with True show ?thesis by fastforce
  next
    case False
    with Cons.prems p have "find_in_items t b l items = Some k" by simp
    from Cons.IH [OF this] obtain pre ob post where
      "items = pre @ (k, ob) # post" "\<forall>q \<in> set pre. \<not> is_match t b l (snd q)"
      "is_match t b l ob" by blast
    with False p have "p # items = (p # pre) @ (k, ob) # post"
      "\<forall>q \<in> set (p # pre). \<not> is_match t b l (snd q)" "is_match t b l ob"
      by simp_all
    then show ?thesis by blast
  qed
qed

lemma update_fresh_key:
  "k \<notin> fst ` set al \<Longrightarrow> AList.update k v al = al @ [(k, v)]"
  by (induction al) auto

text \<open>
  Claim C5, as the code has it. Take any state the first loop of \<open>update\<close> is in, in a
  call on a state reached from a fresh tracker, and a retired object \<open>k\<close> of that state.
  No detection whatever resolves to \<open>k\<close>: the matcher does not return \<open>k\<close>, the
  detection is not resolved to \<open>k\<close>, and the record of \<open>k\<close> stays as it is. For a
  detection with the label of the retired object (with the same bounding box in
  particular): when no active object of that label has IoU above the threshold with it,
  the detection appends a new object under the fresh id \<open>next_object_id\<close>; otherwise it is
  resolved to the first object in dictionary order that is active, has the label and has
  IoU above the threshold, which is not \<open>k\<close>, and no object is created (the keys and
  \<open>next_object_id\<close> stay as they are).
\<close>

theorem retired_never_matched:
  assumes "t0 = run_updates (ObjectTracker_init iou_thr sel thr) calls"
    and "process_detections ft ds (set_first_frame_time t0 ft, {}) = (t, m)"
    and "map_of (tracked_objects t) k = Some ob" and "missing ob"
    and "detection_step ft (t, m) d = ((t', m'), r)"
  shows "find_matching_object t (bbox d) (label d) \<noteq> Some k \<and> r \<noteq> Some k \<and>
         map_of (tracked_objects t') k = Some ob \<and>
         (label d = obj_label ob \<longrightarrow>
           (if \<forall>p \<in> set (tracked_objects t). \<not> is_match t (bbox d) (label d) (snd p)
            then r = Some (next_object_id t) \<and>
                 next_object_id t \<notin> fst ` set (tracked_objects t) \<and>
                 tracked_objects t' =
                   tracked_objects t @
                     [(next_object_id t, new_object (next_object_id t) d ft)] \<and>
                 next_object_id t' = next_object_id t + 1
            else \<exists>pre k' ob' post.
                   tracked_objects t = pre @ (k', ob') # post \<and>
                   (\<forall>p \<in> set pre. \<not> is_match t (bbox d) (label d) (snd p)) \<and>
                   is_match t (bbox d) (label d) ob' \<and>
                   r = Some k' \<and> k' \<noteq> k \<and>
                   map fst (tracked_objects t') = map fst (tracked_objects t) \<and>
                   next_object_id t' = next_object_id t))"
proof -
  from loop_state_inv [OF assms(1,2)] have inv: "tracker_inv t" and oinv: "objects_inv t"
    by simp_all
  have nomatch: "find_matching_object t (bbox d) (label d) \<noteq> Some k"
  proof
    assume "find_matching_object t (bbox d) (label d) = Some k"
    from find_matching_object_active [OF inv this] assms(3,4)
    show False by (auto simp: is_match_def)
  qed
  have r: "r \<noteq> Some k"
    using assms(5) inv assms(3,4) by (rule step_retired_not_resolved)
  have same: "map_of (tracked_objects t') k = Some ob"
    using step_lookup_other [OF assms(5) r] assms(3) by simp
  have rest: "if \<forall>p \<in> set (tracked_objects t). \<not> is_match t (bbox d) (label d) (snd p)
            then r = Some (next_object_id t) \<and>
                 next_object_id t \<notin> fst ` set (tracked_objects t) \<and>
                 tracked_objects t' =
                   tracked_objects t @
                     [(next_object_id t, new_object (next_object_id t) d ft)] \<and>
                 next_object_id t' = next_object_id t + 1
            else \<exists>pre k' ob' post.
                   tracked_objects t = pre @ (k', ob') # post \<and>
                   (\<forall>p \<in> set pre. \<not> is_match t (bbox d) (label d) (snd p)) \<and>
                   is_match t (bbox d) (label d) ob' \<and>
                   r = Some k' \<and> k' \<noteq> k \<and>
                   map fst (tracked_objects t') = map fst (tracked_objects t) \<and>
                   next_object_id t' = next_object_id t"
    if lab: "label d = obj_label ob"
  proof -
    from assms(3) have "(k, ob) \<in> set (tracked_objects t)" by (rule map_of_SomeD)
    with oinv lab have sel: "label d \<in> set (selected_objects t)"
      by (auto simp: objects_inv_def)
    from assms(5) show ?thesis
    proof (cases rule: detection_stepE)
      case skip
      with sel show ?thesis by simp
    next
      case (hit k' ob')
      from hit(2) have f: "find_in_items t (bbox d) (label d) (tracked_objects t) = Some k'"
        by (simp add: find_matching_object_def)
      from find_in_items_split [OF f] obtain pre ob1 post where
        split: "tracked_objects t = pre @ (k', ob1) # post"
        and pre: "\<forall>p \<in> set pre. \<not> is_match t (bbox d) (label d) (snd p)"
        and m1: "is_match t (bbox d) (label d) ob1" by blast
      from split m1 have some: "\<not> (\<forall>p \<in> set (tracked_objects t).
          \<not> is_match t (bbox d) (label d) (snd p))" by auto
      from lookup_key [OF hit(3)] have "k' \<in> set (map fst (tracked_objects t))"
        by simp
      with hit(4) have keys: "map fst (tracked_objects t') = map fst (tracked_objects t)"
        and nid: "next_object_id t' = next_object_id t"
        by (simp_all add: update_keys)
      from hit(6) r have rk: "r = Some k'" and kk: "k' \<noteq> k" by simp_all
      have ex: "\<exists>pre k' ob' post.
                   tracked_objects t = pre @ (k', ob') # post \<and>
                   (\<forall>p \<in> set pre. \<not> is_match t (bbox d) (label d) (snd p)) \<and>
                   is_match t (bbox d) (label d) ob' \<and>
                   r = Some k' \<and> k' \<noteq> k \<and>
                   map fst (tracked_objects t') = map fst (tracked_objects t) \<and>
                   next_object_id t' = next_object_id t"
        by (rule exI [of _ pre], rule exI [of _ k'], rule exI [of _ ob1], rule exI [of _ post])
          (intro conjI split pre m1 rk kk keys nid)
      show ?thesis unfolding if_not_P [OF some] by (rule ex)
    next
      case new
      from new(2) have none: "\<forall>p \<in> set (tracked_objects t).
          \<not> is_match t (bbox d) (label d) (snd p)"
        by (simp add: find_matching_object_def find_in_items_None)
      from next_id_fresh [OF inv]
      have fresh: "next_object_id t \<notin> fst ` set (tracked_objects t)" by simp
      have "r = Some (next_object_id t)" by (rule new(5))
      moreover have "tracked_objects t' =
          tracked_objects t @ [(next_object_id t, new_object (next_object_id t) d ft)]"
        using new(3) fresh by (simp add: update_fresh_key)
      moreover have "next_object_id t' = next_object_id t + 1"
        using new(3) by simp
      ultimately show ?thesis unfolding if_P [OF none] using fresh by (intro conjI)
    qed
  qed
  show ?thesis by (intro conjI impI nomatch r same rest)
qed

theorem retired_never_matched_witness:
  "map_of (tracked_objects (set_first_frame_time
      (run_updates (ObjectTracker_init (1/2) [''car''] 1)
        [([\<lparr>bbox = (0, 0, 10, 10), label = ''car''\<rparr>], 0), ([], 1)]) 2)) 1 =
     Some \<lparr>obj_id = 1, obj_label = ''car'', obj_bbox = (0, 0, 10, 10), first_seen = 0,
           last_seen = 0, total_time = 0, missing_frames = 1, missing = True\<rparr> \<and>
   snd (detection_step 2 (set_first_frame_time
      (run_updates (ObjectTracker_init (1/2) [''car''] 1)
        [([\<lparr>bbox = (0, 0, 10, 10), label = ''car''\<rparr>], 0), ([], 1)]) 2, {})
      \<lparr>bbox = (0, 0, 10, 10), label = ''car''\<rparr>) = Some 2 \<and>
   map_of (tracked_objects (fst (fst (detection_step 2 (set_first_frame_time
      (run_updates (ObjectTracker_init (1/2) [''car''] 1)
        [([\<lparr>bbox = (0, 0, 10, 10), label = ''car''\<rparr>], 0), ([], 1)]) 2, {})
      \<lparr>bbox = (0, 0, 10, 10), label = ''car''\<rparr>)))) 1 =
     Some \<lparr>obj_id = 1, obj_label = ''car'', obj_bbox = (0, 0, 10, 10), first_seen = 0,
           last_seen = 0, total_time = 0, missing_frames = 1, missing = True\<rparr> \<and>
   next_object_id (fst (fst (detection_step 2 (set_first_frame_time
      (run_updates (ObjectTracker_init (1/2) [''car''] 1)
        [([\<lparr>bbox = (0, 0, 10, 10), label = ''car''\<rparr>], 0), ([], 1)]) 2, {})
      \<lparr>bbox = (0, 0, 10, 10), label = ''car''\<rparr>))) = 3"
proof -
  let ?d = "\<lparr>bbox = (0, 0, 10, 10), label = ''car''\<rparr>"
  let ?base = "run_updates (ObjectTracker_init (1/2) [''car''] 1) [([?d], 0), ([], 1)]"
  let ?t = "set_first_frame_time ?base 2"
  let ?ob = "\<lparr>obj_id = 1, obj_label = ''car'', obj_bbox = (0, 0, 10, 10), first_seen = 0,
           last_seen = 0, total_time = 0, missing_frames = 1, missing = True\<rparr>"
  let ?s = "detection_step 2 (?t, {}) ?d"
  have h2: "process_detections 2 [] (set_first_frame_time ?base 2, {}) = (?t, {})" by simp
  have h3: "map_of (tracked_objects ?t) 1 = Some ?ob" by (simp add: tracker_eval)
  have h4: "missing ?ob" by simp
  have h5: "?s = ((fst (fst ?s), snd (fst ?s)), snd ?s)" by simp
  have lab: "label ?d = obj_label ?ob" by simp
  have none: "\<forall>p \<in> set (tracked_objects ?t). \<not> is_match ?t (bbox ?d) (label ?d) (snd p)"
    by (simp add: tracker_eval)
  have nxt: "next_object_id ?t = 2" by (simp add: tracker_eval)
  note inst = retired_never_matched [OF refl h2 h3 h4 h5]
  from inst [THEN conjunct2, THEN conjunct2, THEN conjunct1]
  have kept: "map_of (tracked_objects (fst (fst ?s))) 1 = Some ?ob" .
  from inst [THEN conjunct2, THEN conjunct2, THEN conjunct2, THEN mp, OF lab] have "if \<forall>p \<in> set (tracked_objects ?t). \<not> is_match ?t (bbox ?d) (label ?d) (snd p)
      then snd ?s = Some (next_object_id ?t) \<and>
           next_object_id ?t \<notin> fst ` set (tracked_objects ?t) \<and>
           tracked_objects (fst (fst ?s)) =
             tracked_objects ?t @ [(next_object_id ?t, new_object (next_object_id ?t) ?d 2)] \<and>
           next_object_id (fst (fst ?s)) = next_object_id ?t + 1
      else \<exists>pre k' ob' post.
             tracked_objects ?t = pre @ (k', ob') # post \<and>
             (\<forall>p \<in> set pre. \<not> is_match ?t (bbox ?d) (label ?d) (snd p)) \<and>
             is_match ?t (bbox ?d) (label ?d) ob' \<and>
             snd ?s = Some k' \<and> k' \<noteq> 1 \<and>
             map fst (tracked_objects (fst (fst ?s))) = map fst (tracked_objects ?t) \<and>
             next_object_id (fst (fst ?s)) = next_object_id ?t" .
  then have created: "snd ?s = Some (next_object_id ?t) \<and>
           next_object_id ?t \<notin> fst ` set (tracked_objects ?t) \<and>
           tracked_objects (fst (fst ?s)) =
             tracked_objects ?t @ [(next_object_id ?t, new_object (next_object_id ?t) ?d 2)] \<and>
           next_object_id (fst (fst ?s)) = next_object_id ?t + 1"
    unfolding if_P [OF none] .
  have "snd ?s = Some (next_object_id ?t)"
    by (rule created [THEN conjunct1])
  moreover have "next_object_id (fst (fst ?s)) = next_object_id ?t + 1"
    by (rule created [THEN conjunct2, THEN conjunct2, THEN conjunct2])
  ultimately have "snd ?s = Some (next_object_id ?t)"
    and "next_object_id (fst (fst ?s)) = next_object_id ?t + 1" by blast+
  then have "snd ?s = Some 2" and "next_object_id (fst (fst ?s)) = 3"
    unfolding nxt by simp_all
  with h3 kept show ?thesis by blast
qed

theorem retired_bbox_creates_new_counterexample:
  "map_of (tracked_objects (run_updates (ObjectTracker_init (1/2) [''car''] 1)
      [([\<lparr>bbox = (0, 0, 10, 10), label = ''car''\<rparr>], 0), ([], 1),
       ([\<lparr>bbox = (0, 0, 10, 10), label = ''car''\<rparr>], 2)])) 1 =
     Some \<lparr>obj_id = 1, obj_label = ''car'', obj_bbox = (0, 0, 10, 10), first_seen = 0,
           last_seen = 0, total_time = 0, missing_frames = 1, missing = True\<rparr> \<and>
   map fst (tracked_objects (run_updates (ObjectTracker_init (1/2) [''car''] 1)
      [([\<lparr>bbox = (0, 0, 10, 10), label = ''car''\<rparr>], 0), ([], 1),
       ([\<lparr>bbox = (0, 0, 10, 10), label = ''car''\<rparr>], 2)])) = [1, 2] \<and>
   resolved_ids 3 [\<lparr>bbox = (0, 0, 10, 10), label = ''car''\<rparr>]
     (set_first_frame_time (run_updates (ObjectTracker_init (1/2) [''car''] 1)
      [([\<lparr>bbox = (0, 0, 10, 10), label = ''car''\<rparr>], 0), ([], 1),
       ([\<lparr>bbox = (0, 0, 10, 10), label = ''car''\<rparr>], 2)]) 3, {}) = [Some 2] \<and>
   map fst (tracked_objects (update (run_updates (ObjectTracker_init (1/2) [''car''] 1)
      [([\<lparr>bbox = (0, 0, 10, 10), label = ''car''\<rparr>], 0), ([], 1),
       ([\<lparr>bbox = (0, 0, 10, 10), label = ''car''\<rparr>], 2)])
      [\<lparr>bbox = (0, 0, 10, 10), label = ''car''\<rparr>] 3)) = [1, 2]"
  by (simp add: tracker_eval)

section \<open>Detections of one call\<close>






section \<open>The summary is relative to the first frame\<close>

lemma map_of_summary_append:
  "map_of (summary_append l e s) l' =
     (if l' = l then Some (entries_of s l @ [e]) else map_of s l')"
  by (induction s) (auto simp: entries_of_def)

lemma entries_of_summary_append:
  "entries_of (summary_append l e s) l' =
     (if l' = l then entries_of s l @ [e] else entries_of s l')"
  by (simp add: entries_of_def map_of_summary_append)

lemma summary_loop_entries:
  "\<exists>s'. summary_loop (Some f) items s = Inr s' \<and>
     (\<forall>l. entries_of s' l =
        entries_of s l @
        map (\<lambda>p. report_entry f (snd p)) (filter (\<lambda>p. obj_label (snd p) = l) items))"
proof (induction items arbitrary: s)
  case Nil
  then show ?case by simp
next
  case (Cons p items)
  obtain k ob where p: "p = (k, ob)" by (cases p)
  from Cons.IH [of "summary_append (obj_label ob) (report_entry f ob) s"] p
  show ?case by (auto simp: entries_of_summary_append)
qed

lemma update_first_frame_time:
  "first_frame_time (update t ds ft) =
     Some (case first_frame_time t of None \<Rightarrow> ft | Some f \<Rightarrow> f)"
proof -
  obtain t' m' where a: "after_detections t ds ft = (t', m')" by (metis prod.exhaust)
  from after_detections_props [OF a] show ?thesis by (simp add: update_unfold [OF a])
qed

lemma run_updates_first_frame_time:
  "first_frame_time t = Some f \<Longrightarrow> first_frame_time (run_updates t calls) = Some f"
  by (induction t calls rule: run_updates.induct) (simp_all add: update_first_frame_time)

lemma step_first_seen:
  assumes "detection_step ft (t, m) d = ((t', m'), r)" and "tracker_inv t"
    and "map_of (tracked_objects t) k = Some ob"
  shows "\<exists>ob'. map_of (tracked_objects t') k = Some ob' \<and> first_seen ob' = first_seen ob"
  using assms(1)
proof (cases rule: detection_stepE)
  case skip
  with assms(3) show ?thesis by simp
next
  case (hit k' ob')
  with assms(3) show ?thesis by (auto simp: update_conv' refresh_object_def)
next
  case new
  from assms(3) have "k \<in> fst ` set (tracked_objects t)" by (rule lookup_key)
  with next_id_fresh [OF assms(2)] have "k \<noteq> next_object_id t" by force
  with new assms(3) show ?thesis by (simp add: update_conv')
qed

lemma process_first_seen:
  "tracker_inv t \<Longrightarrow> map_of (tracked_objects t) k = Some ob \<Longrightarrow>
   process_detections ft ds (t, m) = (t', m') \<Longrightarrow>
   \<exists>ob'. map_of (tracked_objects t') k = Some ob' \<and> first_seen ob' = first_seen ob"
proof (induction ds arbitrary: t m ob)
  case Nil
  then show ?case by simp
next
  case (Cons d ds)
  obtain t1 m1 r where st: "detection_step ft (t, m) d = ((t1, m1), r)"
    by (rule step_exhaust)
  with Cons.prems have p: "process_detections ft ds (t1, m1) = (t', m')" by simp
  from step_first_seen [OF st Cons.prems(1,2)]
  obtain ob1 where 1: "map_of (tracked_objects t1) k = Some ob1"
    and 2: "first_seen ob1 = first_seen ob" by auto
  from Cons.IH [OF step_inv [OF st Cons.prems(1)] 1 p] 2 show ?case by simp
qed

lemma update_first_seen:
  assumes "tracker_inv t" and "map_of (tracked_objects t) k = Some ob"
  shows "\<exists>ob'. map_of (tracked_objects (update t ds ft)) k = Some ob' \<and>
               first_seen ob' = first_seen ob"
proof -
  obtain t' m' where a: "after_detections t ds ft = (t', m')" by (metis prod.exhaust)
  have inv: "tracker_inv (set_first_frame_time t ft)"
    using assms(1) by (simp add: set_first_frame_time_inv)
  have look: "map_of (tracked_objects (set_first_frame_time t ft)) k = Some ob"
    using assms(2) by (simp add: set_first_frame_time_objects)
  from process_first_seen [OF inv look a [unfolded after_detections_def]]
  show ?thesis by (auto simp: update_lookup [OF a] mark_missing_fields)
qed

lemma run_updates_first_seen:
  "tracker_inv t \<Longrightarrow> map_of (tracked_objects t) k = Some ob \<Longrightarrow>
   \<exists>ob'. map_of (tracked_objects (run_updates t calls)) k = Some ob' \<and>
         first_seen ob' = first_seen ob"
proof (induction t calls arbitrary: ob rule: run_updates.induct)
  case (1 t)
  then show ?case by simp
next
  case (2 t ds ft calls)
  from update_first_seen [OF "2.prems"]
  obtain ob1 where 1: "map_of (tracked_objects (update t ds ft)) k = Some ob1"
    and 2: "first_seen ob1 = first_seen ob" by blast
  from "2.IH" [OF update_inv [OF "2.prems"(1)] 1] 2 show ?case by simp
qed

lemma step_created_now:
  assumes "detection_step ft (t, m) d = ((t', m'), r)"
    and "\<forall>p \<in> set (tracked_objects t). first_seen (snd p) = ft"
  shows "\<forall>p \<in> set (tracked_objects t'). first_seen (snd p) = ft"
  using assms(1)
proof (cases rule: detection_stepE)
  case skip
  with assms(2) show ?thesis by simp
next
  case (hit k ob)
  from hit(3) have "(k, ob) \<in> set (tracked_objects t)" by (rule map_of_SomeD)
  with assms(2) have "first_seen (refresh_object d ft ob) = ft"
    by (auto simp: refresh_object_def)
  with assms(2) hit(4) set_update_subset [of k "refresh_object d ft ob" "tracked_objects t"]
  show ?thesis by auto
next
  case new
  with assms(2)
    set_update_subset [of "next_object_id t" "new_object (next_object_id t) d ft" "tracked_objects t"]
  show ?thesis by (auto simp: new_object_def)
qed

lemma process_created_now:
  "\<forall>p \<in> set (tracked_objects t). first_seen (snd p) = ft \<Longrightarrow>
   process_detections ft ds (t, m) = (t', m') \<Longrightarrow>
   \<forall>p \<in> set (tracked_objects t'). first_seen (snd p) = ft"
proof (induction ds arbitrary: t m)
  case Nil
  then show ?case by simp
next
  case (Cons d ds)
  obtain t1 m1 r where st: "detection_step ft (t, m) d = ((t1, m1), r)"
    by (rule step_exhaust)
  with Cons.prems have p: "process_detections ft ds (t1, m1) = (t', m')" by simp
  from step_created_now [OF st Cons.prems(1)] p show ?case by (rule Cons.IH)
qed

lemma first_update_first_seen:
  "\<forall>p \<in> set (tracked_objects (update (ObjectTracker_init iou_thr sel thr) ds ft)).
     first_seen (snd p) = ft"
proof -
  let ?init = "ObjectTracker_init iou_thr sel thr"
  obtain t' m' where a: "after_detections ?init ds ft = (t', m')" by (metis prod.exhaust)
  have "\<forall>p \<in> set (tracked_objects (set_first_frame_time ?init ft)). first_seen (snd p) = ft"
    by (simp add: set_first_frame_time_def ObjectTracker_init_def)
  from process_created_now [OF this a [unfolded after_detections_def]]
  show ?thesis by (auto simp: update_unfold [OF a] mark_missing_fields)
qed


text \<open>
  Claim C9. After at least one call of \<open>update\<close> on a fresh tracker, \<open>first_frame_time\<close>
  is the frame time of the first call, \<open>get_detailed_summary\<close> returns (it does not
  raise), and the list it stores under a label holds, for the objects of that label in
  dictionary order, the entry whose \<open>first_seen\<close> and \<open>last_seen\<close> are the stored values
  minus the frame time of the first call. Every object created in the first call is
  reported with \<open>first_seen\<close> 0, in whatever later state.
\<close>

theorem summary_relative_to_first_frame:
  assumes "t = run_updates (ObjectTracker_init iou_thr sel thr) ((ds0, ft0) # calls)"
  shows "first_frame_time t = Some ft0 \<and>
     (\<exists>s. get_detailed_summary t = Inr s \<and>
        (\<forall>l. entries_of s l =
           map (\<lambda>p. report_entry ft0 (snd p))
             (filter (\<lambda>p. obj_label (snd p) = l) (tracked_objects t)))) \<and>
     (\<forall>p \<in> set (tracked_objects t).
        rep_first_seen (report_entry ft0 (snd p)) = first_seen (snd p) - ft0 \<and>
        rep_last_seen (report_entry ft0 (snd p)) = last_seen (snd p) - ft0) \<and>
     (\<forall>p \<in> set (tracked_objects t).
        fst p \<in> fst ` set (tracked_objects (update (ObjectTracker_init iou_thr sel thr) ds0 ft0))
        \<longrightarrow> rep_first_seen (report_entry ft0 (snd p)) = 0)"
proof -
  let ?init = "ObjectTracker_init iou_thr sel thr"
  let ?first = "update ?init ds0 ft0"
  have t: "t = run_updates ?first calls" using assms by simp
  have "first_frame_time ?first = Some ft0"
    by (simp add: update_first_frame_time ObjectTracker_init_def)
  then have fft: "first_frame_time t = Some ft0"
    unfolding t by (rule run_updates_first_frame_time)
  from summary_loop_entries [of ft0 "tracked_objects t" "[]"] fft
  have summ: "\<exists>s. get_detailed_summary t = Inr s \<and>
        (\<forall>l. entries_of s l =
           map (\<lambda>p. report_entry ft0 (snd p))
             (filter (\<lambda>p. obj_label (snd p) = l) (tracked_objects t)))"
    by (simp add: get_detailed_summary_def entries_of_def)
  have fields: "\<forall>p \<in> set (tracked_objects t).
        rep_first_seen (report_entry ft0 (snd p)) = first_seen (snd p) - ft0 \<and>
        rep_last_seen (report_entry ft0 (snd p)) = last_seen (snd p) - ft0"
    by (simp add: report_entry_def)
  have inv1: "tracker_inv ?first" by (rule update_inv) (rule init_inv)
  have inv: "tracker_inv t" unfolding t using inv1 by (rule run_updates_inv)
  have zero: "rep_first_seen (report_entry ft0 (snd p)) = 0"
    if mem: "p \<in> set (tracked_objects t)"
      and old: "fst p \<in> fst ` set (tracked_objects ?first)" for p
  proof -
    from old obtain ob1 where 1: "map_of (tracked_objects ?first) (fst p) = Some ob1"
      by (metis map_of_eq_None_iff not_Some_eq)
    then have "(fst p, ob1) \<in> set (tracked_objects ?first)" by (rule map_of_SomeD)
    with first_update_first_seen [of iou_thr sel thr ds0 ft0]
    have f1: "first_seen ob1 = ft0" by auto
    from run_updates_first_seen [OF inv1 1, of calls]
    obtain ob' where 2: "map_of (tracked_objects t) (fst p) = Some ob'"
      and 3: "first_seen ob' = first_seen ob1" unfolding t by blast
    from tracker_inv_keys [OF inv] have "distinct (map fst (tracked_objects t))" by simp
    with mem have "map_of (tracked_objects t) (fst p) = Some (snd p)" by simp
    with 2 3 f1 show ?thesis by (simp add: report_entry_def)
  qed
  from fft summ fields zero show ?thesis by blast
qed

theorem summary_relative_to_first_frame_witness:
  "first_frame_time (run_updates (ObjectTracker_init (1/2) [''car''] 20)
     (([\<lparr>bbox = (0, 0, 10, 10), label = ''car''\<rparr>], 5) #
      [([\<lparr>bbox = (0, 0, 10, 10), label = ''car''\<rparr>], 7)])) = Some 5 \<and>
   get_detailed_summary (run_updates (ObjectTracker_init (1/2) [''car''] 20)
     (([\<lparr>bbox = (0, 0, 10, 10), label = ''car''\<rparr>], 5) #
      [([\<lparr>bbox = (0, 0, 10, 10), label = ''car''\<rparr>], 7)])) =
     Inr [(''car'', [\<lparr>rep_id = 1, rep_first_seen = 0, rep_last_seen = 2, rep_total_time = 2,
                      rep_missing_frames = 0, rep_missing = False\<rparr>])]"
proof -
  let ?t = "run_updates (ObjectTracker_init (1/2) [''car''] 20)
     (([\<lparr>bbox = (0, 0, 10, 10), label = ''car''\<rparr>], 5) #
      [([\<lparr>bbox = (0, 0, 10, 10), label = ''car''\<rparr>], 7)])"
  from summary_relative_to_first_frame [OF refl, of "1/2" "[''car'']" 20
      "[\<lparr>bbox = (0, 0, 10, 10), label = ''car''\<rparr>]" 5
      "[([\<lparr>bbox = (0, 0, 10, 10), label = ''car''\<rparr>], 7)]"]
  have a: "first_frame_time ?t = Some 5" by blast
  have b: "get_detailed_summary ?t =
     Inr [(''car'', [\<lparr>rep_id = 1, rep_first_seen = 0, rep_last_seen = 2, rep_total_time = 2,
                      rep_missing_frames = 0, rep_missing = False\<rparr>])]"
    by (simp add: get_detailed_summary_def report_entry_def tracker_eval)
  from a b show ?thesis ..
qed

section \<open>Catch-up on an empty queue\<close>

lemma catchup_empty_queue:
  assumes "frame_queue s = []" and "current_time - last_catchup_time s \<ge> catchup_interval"
  shows "loop_iteration detect render start_time catchup_interval current_time s =
         process_frame detect render start_time s"
  using assms by (cases s) (simp add: loop_iteration_def)

text \<open>
  Claim C2 asks that an iteration which finds the queue empty at catch-up time processes
  nothing. The iteration below finds the queue empty at time 0.6, with the last catch-up
  at 0 and an interval of 0.5, after frame 2 (no detection in it, time stamp 0.3) has been
  processed. It runs the body on the variables left by frame 2: the count of processed
  frames goes from 2 to 3 and \<open>update\<close> is called again with frame time 0.3, which takes
  \<open>missing_frames\<close> of object 1 from 1 to 2.
\<close>

theorem catchup_empty_queue_processes_stale_frame:
  "loop_iteration (\<lambda>frame. if frame = (1::nat) then [\<lparr>bbox = (0, 0, 10, 10), label = ''car''\<rparr>] else [])
     (\<lambda>t ds frame. frame) 0 (1/2) (3/5)
     \<lparr>frame_queue = [], frame_vars = Some (2, 3/10, 2), last_catchup_time = 0,
      processed_frame_count = 2,
      tracker = run_updates (ObjectTracker_init (1/2) [''car''] 20)
        [([\<lparr>bbox = (0, 0, 10, 10), label = ''car''\<rparr>], 0), ([], 3/10)]\<rparr> =
   Processed
     \<lparr>frame_queue = [], frame_vars = Some (2, 3/10, 2), last_catchup_time = 0,
      processed_frame_count = 3,
      tracker =
        \<lparr>tracked_objects =
           [(1, \<lparr>obj_id = 1, obj_label = ''car'', obj_bbox = (0, 0, 10, 10), first_seen = 0,
                 last_seen = 0, total_time = 0, missing_frames = 2, missing = False\<rparr>)],
         next_object_id = 2, iou_threshold = 1/2, first_frame_time = Some 0,
         selected_objects = [''car''], missing_threshold = 20\<rparr>\<rparr> \<and>
   tracked_objects (run_updates (ObjectTracker_init (1/2) [''car''] 20)
        [([\<lparr>bbox = (0, 0, 10, 10), label = ''car''\<rparr>], 0), ([], 3/10)]) =
     [(1, \<lparr>obj_id = 1, obj_label = ''car'', obj_bbox = (0, 0, 10, 10), first_seen = 0,
           last_seen = 0, total_time = 0, missing_frames = 1, missing = False\<rparr>)]"
  by (simp add: loop_iteration_def process_frame_def tracker_eval)

end
